theory Spec2Isabelle
  imports Main "HOL-Library.Sublist"
begin

section \<open>Text: Python strings over ASCII\<close>

text \<open>
  The corpus and the request parameters are Python \<open>str\<close> values. They are modelled as
  \<open>string\<close> (a list of \<open>char\<close>), read as ASCII text: the character classes below are
  those of Python on the code points below 128, and a character from 128 on is in none
  of them and is its own lowercase.
\<close>

definition is_upper :: "char \<Rightarrow> bool" where
  "is_upper c = (c \<in> set ''ABCDEFGHIJKLMNOPQRSTUVWXYZ'')"

definition is_lower :: "char \<Rightarrow> bool" where
  "is_lower c = (c \<in> set ''abcdefghijklmnopqrstuvwxyz'')"

definition is_digit :: "char \<Rightarrow> bool" where
  "is_digit c = (c \<in> set ''0123456789'')"

text \<open>\<open>\w\<close> of the \<open>re\<close> module on a \<open>str\<close> pattern: alphanumeric or the underscore.\<close>

definition is_word :: "char \<Rightarrow> bool" where
  "is_word c = (is_upper c \<or> is_lower c \<or> is_digit c \<or> c = CHR ''_'')"

text \<open>
  \<open>str.isspace\<close>, which is also \<open>\s\<close> of the \<open>re\<close> module on a \<open>str\<close> pattern and what
  \<open>str.strip()\<close> removes: the code points 9 to 13, 28 to 31 and 32.
\<close>

definition is_space :: "char \<Rightarrow> bool" where
  "is_space c = (c \<in> {CHR 0x09, CHR 0x0A, CHR 0x0B, CHR 0x0C, CHR 0x0D,
                       CHR 0x1C, CHR 0x1D, CHR 0x1E, CHR 0x1F, CHR '' ''})"

text \<open>\<open>str.lower()\<close>, one character at a time.\<close>

definition lower_char :: "char \<Rightarrow> char" where
  "lower_char c =
     (case map_of (zip ''ABCDEFGHIJKLMNOPQRSTUVWXYZ'' ''abcdefghijklmnopqrstuvwxyz'') c of
        Some d \<Rightarrow> d
      | None \<Rightarrow> c)"

definition lower :: "string \<Rightarrow> string" where
  "lower s = map lower_char s"

text \<open>A character of ASCII (a code point below 128), and a text made of them.\<close>

definition ascii_char :: "char \<Rightarrow> bool" where
  "ascii_char c = (\<not> digit7 c)"

definition ascii_text :: "string \<Rightarrow> bool" where
  "ascii_text s = list_all ascii_char s"

text \<open>\<open>s.strip()\<close>: whitespace is removed at both ends.\<close>

definition strip :: "string \<Rightarrow> string" where
  "strip s = rev (dropWhile is_space (rev (dropWhile is_space s)))"

text \<open>\<open>s.replace("\n", " ")\<close>.\<close>

definition replace_newlines :: "string \<Rightarrow> string" where
  "replace_newlines s = map (\<lambda>c. if c = CHR 0x0A then CHR '' '' else c) s"

text \<open>
  \<open>s[a:b]\<close> for \<open>0 \<le> a\<close> and \<open>0 \<le> b \<le> len(s)\<close>, the only slices the program takes:
  empty when \<open>b \<le> a\<close>.
\<close>

definition slice :: "string \<Rightarrow> nat \<Rightarrow> nat \<Rightarrow> string" where
  "slice s a b = take (b - a) (drop a s)"

text \<open>
  \<open>s.index(sub)\<close>: the offset of the first occurrence of \<open>sub\<close> in \<open>s\<close>; \<open>None\<close> stands for
  the \<open>ValueError\<close> raised when there is no occurrence.
\<close>

fun str_index :: "string \<Rightarrow> string \<Rightarrow> nat option" where
  "str_index [] sub = (if sub = [] then Some 0 else None)"
| "str_index (c # cs) sub =
     (if prefix sub (c # cs) then Some 0 else map_option Suc (str_index cs sub))"

text \<open>
  \<open>s.split(',')\<close>: the pieces between the commas, one more than there are commas.
  The accumulator holds the piece being read, reversed.
\<close>

fun split_on :: "char \<Rightarrow> string \<Rightarrow> string \<Rightarrow> string list" where
  "split_on sep acc [] = [rev acc]"
| "split_on sep acc (c # cs) =
     (if c = sep then rev acc # split_on sep [] cs else split_on sep (c # acc) cs)"

definition split_comma :: "string \<Rightarrow> string list" where
  "split_comma s = split_on CHR '','' [] s"

text \<open>\<open>sep.join(xs)\<close>.\<close>

fun join :: "string \<Rightarrow> string list \<Rightarrow> string" where
  "join sep [] = []"
| "join sep [x] = x"
| "join sep (x # y # ys) = x @ sep @ join sep (y # ys)"


section \<open>Regular expressions\<close>

text \<open>
  The program calls \<open>re.findall\<close>, \<open>re.split\<close> and \<open>re.search\<close>. The patterns it uses are
  built from the constructs below; the matcher follows the backtracking semantics of the
  \<open>re\<close> module: the alternatives of a pattern at a position are tried in a fixed order,
  the left branch of \<open>|\<close> first and the longest repetition of \<open>+\<close> first, and the first
  one that succeeds is the match.
\<close>

datatype atom =
    Literal char        \<comment> \<open>a character that stands for itself\<close>
  | Char_set string     \<comment> \<open>\<open>[...]\<close>, listing its members\<close>
  | Word_char           \<comment> \<open>\<open>\w\<close>\<close>
  | Space_char          \<comment> \<open>\<open>\s\<close>\<close>

datatype regex =
    Atom atom
  | Seq regex regex     \<comment> \<open>juxtaposition\<close>
  | Alt regex regex     \<comment> \<open>\<open>|\<close>\<close>
  | Plus regex          \<comment> \<open>greedy \<open>+\<close>\<close>
  | Word_boundary       \<comment> \<open>\<open>\b\<close>\<close>
  | Look_behind atom    \<comment> \<open>\<open>(?<=a)\<close> for a one-character \<open>a\<close>\<close>

text \<open>
  Whether an atom accepts a character; \<open>ic\<close> is the flag \<open>re.IGNORECASE\<close>. On ASCII
  characters the flag makes a literal match the characters with the same lowercase form.
  Beyond ASCII it does more (the long s matches \<open>s\<close>, the dotless i matches \<open>i\<close>, and
  neither changes under \<open>str.lower()\<close>), so the matcher is run with the flag on ASCII
  text only: see \<open>find_body\<close>.
\<close>

fun atom_ok :: "bool \<Rightarrow> atom \<Rightarrow> char \<Rightarrow> bool" where
  "atom_ok ic (Literal d) c = (if ic then lower_char c = lower_char d else c = d)"
| "atom_ok ic (Char_set cs) c = (c \<in> set cs)"
| "atom_ok ic Word_char c = is_word c"
| "atom_ok ic Space_char c = is_space c"

text \<open>
  A position in the subject string is a cursor: the character just before the position
  (\<open>None\<close> at the start of the string) and the text from the position on.
\<close>

type_synonym cursor = "char option \<times> string"

definition word_before :: "cursor \<Rightarrow> bool" where
  "word_before cu = (case fst cu of None \<Rightarrow> False | Some c \<Rightarrow> is_word c)"

definition word_after :: "cursor \<Rightarrow> bool" where
  "word_after cu = (case snd cu of [] \<Rightarrow> False | c # _ \<Rightarrow> is_word c)"

text \<open>
  \<open>\b\<close> holds where exactly one of the two neighbouring characters is a word character,
  the ends of the string counting as non-word characters.
\<close>

definition at_word_boundary :: "cursor \<Rightarrow> bool" where
  "at_word_boundary cu = (word_before cu \<noteq> word_after cu)"

text \<open>
  \<open>ends ic r cu\<close>: the cursors at which a match of \<open>r\<close> that starts at \<open>cu\<close> can end, in
  the order in which the backtracking matcher tries them. An iteration of \<open>+\<close> that
  consumes nothing is not repeated.
\<close>

function ends :: "bool \<Rightarrow> regex \<Rightarrow> cursor \<Rightarrow> cursor list" where
  "ends ic (Atom a) cu =
     (case snd cu of
        [] \<Rightarrow> []
      | c # cs \<Rightarrow> if atom_ok ic a c then [(Some c, cs)] else [])"
| "ends ic (Seq r1 r2) cu = concat (map (ends ic r2) (ends ic r1 cu))"
| "ends ic (Alt r1 r2) cu = ends ic r1 cu @ ends ic r2 cu"
| "ends ic (Plus r) cu =
     concat (map (\<lambda>cu'. if length (snd cu') < length (snd cu)
                         then ends ic (Plus r) cu' @ [cu'] else [cu'])
                 (ends ic r cu))"
| "ends ic Word_boundary cu = (if at_word_boundary cu then [cu] else [])"
| "ends ic (Look_behind a) cu =
     (case fst cu of
        None \<Rightarrow> []
      | Some c \<Rightarrow> if atom_ok ic a c then [cu] else [])"
  by pat_completeness auto
termination
  by (relation "inv_image (less_than <*lex*> less_than)
                  (\<lambda>(ic, r, cu). (size r, length (snd cu)))") auto

declare ends.simps [simp del]

text \<open>The match of \<open>r\<close> at a cursor, if any: the end the matcher reaches first.\<close>

definition match_at :: "bool \<Rightarrow> regex \<Rightarrow> cursor \<Rightarrow> cursor option" where
  "match_at ic r cu = (case ends ic r cu of [] \<Rightarrow> None | cu' # _ \<Rightarrow> Some cu')"

text \<open>
  \<open>re.search\<close>, as the program uses it (for the truth value of its result): is there a
  position, from the cursor on, where the pattern matches.
\<close>

fun re_search :: "bool \<Rightarrow> regex \<Rightarrow> cursor \<Rightarrow> bool" where
  "re_search ic r (p, []) = (match_at ic r (p, []) \<noteq> None)"
| "re_search ic r (p, c # cs) =
     (match_at ic r (p, c # cs) \<noteq> None \<or> re_search ic r (Some c, cs))"

text \<open>
  \<open>re.findall\<close> for a pattern without groups: the texts of the matches, found from left
  to right, each search starting where the previous match ended. The patterns of this
  program match no empty string; an empty match is recorded and the scan moves on by one
  character.
\<close>

function findall_from :: "bool \<Rightarrow> regex \<Rightarrow> cursor \<Rightarrow> string list" where
  "findall_from ic r (p, s) =
     (case match_at ic r (p, s) of
        None \<Rightarrow> (case s of [] \<Rightarrow> [] | c # cs \<Rightarrow> findall_from ic r (Some c, cs))
      | Some (p', s') \<Rightarrow>
          if length s' < length s
          then take (length s - length s') s # findall_from ic r (p', s')
          else (case s of [] \<Rightarrow> [[]] | c # cs \<Rightarrow> [] # findall_from ic r (Some c, cs)))"
  by pat_completeness auto
termination
  by (relation "measure (\<lambda>(ic, r, cu). length (snd cu))") auto

declare findall_from.simps [simp del]

definition re_findall :: "regex \<Rightarrow> string \<Rightarrow> string list" where
  "re_findall r s = findall_from False r (None, s)"

text \<open>
  \<open>re.split\<close> for a pattern without groups: the pieces of the text between the matches.
  \<open>acc\<close> holds the piece being read, reversed. A match that consumes nothing (none of
  this program's patterns has one) does not split.
\<close>

function split_from :: "bool \<Rightarrow> regex \<Rightarrow> string \<Rightarrow> cursor \<Rightarrow> string list" where
  "split_from ic r acc (p, s) =
     (case s of
        [] \<Rightarrow> [rev acc]
      | c # cs \<Rightarrow>
          (case match_at ic r (p, s) of
             None \<Rightarrow> split_from ic r (c # acc) (Some c, cs)
           | Some (p', s') \<Rightarrow>
               if length s' < length s
               then rev acc # split_from ic r [] (p', s')
               else split_from ic r (c # acc) (Some c, cs)))"
  by pat_completeness auto
termination
  by (relation "measure (\<lambda>(ic, r, acc, cu). length (snd cu))") auto

declare split_from.simps [simp del]

definition re_split :: "regex \<Rightarrow> string \<Rightarrow> string list" where
  "re_split r s = split_from False r [] (None, s)"


section \<open>The patterns of the program\<close>

text \<open>The tokenizer of \<open>load_corpus\<close>: \<^verbatim>\<open>\b\w+\b|[\.,!?;]\<close>.\<close>

definition token_re :: regex where
  "token_re =
     Alt (Seq Word_boundary (Seq (Plus (Atom Word_char)) Word_boundary))
         (Atom (Char_set ''.,!?;''))"

text \<open>The sentence separator of \<open>find_matching_sentences_for_word\<close>: \<^verbatim>\<open>(?<=[.!?])\s+\<close>.\<close>

definition sentence_sep_re :: regex where
  "sentence_sep_re = Seq (Look_behind (Char_set ''.!?'')) (Plus (Atom Space_char))"

text \<open>
  The pattern \<^verbatim>\<open>rf'\b{input_word}\b'\<close>. The word is pasted into the pattern, so a word with
  a character that the pattern syntax gives a meaning is a pattern of its own; those words
  are outside this model (\<open>None\<close>). Every other word stands for itself, character by
  character.
\<close>

definition metachars :: string where
  "metachars = [CHR ''.'', CHR ''^'', CHR ''$'', CHR ''*'', CHR ''+'', CHR ''?'', CHR ''{'',
                CHR ''}'', CHR ''['', CHR '']'', CHR 0x5C, CHR ''|'', CHR ''('', CHR '')'']"

definition plain :: "string \<Rightarrow> bool" where
  "plain w = list_all (\<lambda>c. c \<notin> set metachars) w"

definition literal_re :: "string \<Rightarrow> regex \<Rightarrow> regex" where
  "literal_re w r = foldr (\<lambda>c. Seq (Atom (Literal c))) w r"

definition word_re :: "string \<Rightarrow> regex option" where
  "word_re w = (if plain w then Some (Seq Word_boundary (literal_re w Word_boundary)) else None)"


section \<open>Values, exceptions and responses\<close>

text \<open>
  What a request parameter or a JSON field can hold: nothing (the parameter is missing,
  the field is absent or null), a string, or a JSON value of another type.
\<close>

datatype py_value = PyNone | PyStr string | PyOther

datatype exn = FileNotFoundError | ValueError | AttributeError | OtherError

text \<open>
  Modelled from the spec: \<open>config.ERROR_MESSAGES\<close> is not among the sources. It is a table
  of a message and a status code for each of the four error kinds that \<open>handle_error\<close>
  names, so the lookup of \<open>handle_error\<close> never falls back to its default, and its
  response is determined by the kind it is called with.
\<close>

datatype error_type = invalid_input | file_not_found | internal_error | not_found_in_corpus

text \<open>The JSON responses of the handlers, by shape, with the status code each carries.\<close>

datatype response =
    Similar_words string "string list"
      \<comment> \<open>200, \<open>{"query_word": q, "similar_words": ws}\<close>\<close>
  | Matching_sentences "string list"
      \<comment> \<open>200, \<open>{"matching_sentences": [{"context": c}, ...]}\<close>, by the contexts\<close>
  | Word_added string
      \<comment> \<open>201, \<open>{"message": "Word 'w' added to the corpus"}\<close>\<close>
  | Removed nat string
      \<comment> \<open>200, \<open>{"message": "Removed n occurrences of word 'w' from the corpus"}\<close>\<close>
  | No_occurrences string
      \<comment> \<open>404, \<open>{"error": "No occurrences of word 'w' found in the corpus"}\<close>\<close>
  | Replaced nat string string
      \<comment> \<open>200, \<open>{"message": "Replaced n occurrences of 'old' with 'new' in the corpus"}\<close>\<close>
  | Corpus "string list"
      \<comment> \<open>200, \<open>{"corpus": word_list}\<close>\<close>
  | Error_response error_type
      \<comment> \<open>the message and the status code of \<open>ERROR_MESSAGES\<close> for the kind\<close>

definition handle_error :: "error_type \<Rightarrow> response" where
  "handle_error error_type = Error_response error_type"

text \<open>
  \<open>validate_input_string\<close>: the error message, or \<open>None\<close> for a valid value.
\<close>

fun validate_input_string :: "py_value \<Rightarrow> string \<Rightarrow> string option" where
  "validate_input_string PyNone field_name = Some (''Invalid or missing '' @ field_name)"
| "validate_input_string PyOther field_name = Some (''Invalid or missing '' @ field_name)"
| "validate_input_string (PyStr s) field_name =
     (if s = [] \<or> strip s = [] then Some (''Invalid or missing '' @ field_name) else None)"

text \<open>A query parameter, \<open>request.args.get(name)\<close>: a string, or \<open>None\<close> when it is missing.\<close>

fun arg_value :: "string option \<Rightarrow> py_value" where
  "arg_value None = PyNone"
| "arg_value (Some s) = PyStr s"


section \<open>The context extractor\<close>

text \<open>\<open>load_corpus\<close>, given the text that was read from the corpus file.\<close>

definition tokenize :: "string \<Rightarrow> string list" where
  "tokenize corpus_text = re_findall token_re corpus_text"

definition split_sentences :: "string \<Rightarrow> string list" where
  "split_sentences hemingway = re_split sentence_sep_re hemingway"

text \<open>
  The body of the loop of \<open>find_matching_sentences_for_word\<close> for a sentence that the
  pattern matches; \<open>R\<close> is \<open>config.CONTEXT_SIZE\<close>. \<open>str.index\<close> raises \<open>ValueError\<close> when the
  lowercase word does not occur in the lowercase sentence.
\<close>

definition context_of :: "nat \<Rightarrow> string \<Rightarrow> string \<Rightarrow> exn + string" where
  "context_of R input_word sentence =
     (case str_index (lower sentence) (lower input_word) of
        None \<Rightarrow> Inl ValueError
      | Some match_index \<Rightarrow>
          let context_start = nat (max (int match_index - int R) 0);
              context_end = min (match_index + length input_word + R) (length sentence);
              context = slice sentence context_start context_end
          in Inr (strip (replace_newlines context)))"

text \<open>The loop over the sentences; \<open>matching_sentences\<close> is the list built so far.\<close>

fun sentence_loop ::
  "nat \<Rightarrow> regex \<Rightarrow> string \<Rightarrow> string list \<Rightarrow> string list \<Rightarrow> exn + string list" where
  "sentence_loop R pat input_word [] matching_sentences = Inr matching_sentences"
| "sentence_loop R pat input_word (sentence # sentences) matching_sentences =
     (if re_search True pat (None, sentence)
      then (case context_of R input_word sentence of
              Inl e \<Rightarrow> Inl e
            | Inr context \<Rightarrow>
                sentence_loop R pat input_word sentences (matching_sentences @ [context]))
      else sentence_loop R pat input_word sentences matching_sentences)"

text \<open>
  The \<open>try\<close> block of \<open>find_matching_sentences_for_word\<close>. \<open>file\<close> is what reading the corpus
  file gives, \<open>None\<close> when opening it raises. The outer \<open>None\<close> is an input outside the
  model: a word that is a pattern of its own (see \<open>word_re\<close>), or a word or a corpus with a
  character outside ASCII, where \<open>re.IGNORECASE\<close> and \<open>str.lower()\<close> part ways (the pattern
  \<open>s\<close> matches the long s, which \<open>str.lower()\<close> leaves as it is, so that \<open>str.index\<close> can
  raise on a sentence that the pattern matches).
\<close>

fun find_body :: "nat \<Rightarrow> string option \<Rightarrow> py_value \<Rightarrow> (exn + string list) option" where
  "find_body R file (PyStr input_word) =
     (if validate_input_string (PyStr input_word) ''input word'' \<noteq> None
      then Some (Inl ValueError)
      else (case file of
              None \<Rightarrow> Some (Inl FileNotFoundError)
            | Some hemingway \<Rightarrow>
                if \<not> (ascii_text input_word \<and> ascii_text hemingway) then None
                else (case word_re input_word of
                        None \<Rightarrow> None
                      | Some pat \<Rightarrow>
                          Some (sentence_loop R pat input_word (split_sentences hemingway) []))))"
| "find_body R file v = Some (Inl ValueError)"

text \<open>The function with its \<open>except\<close> clause: any exception gives the empty list.\<close>

definition find_matching_sentences_for_word ::
  "nat \<Rightarrow> string option \<Rightarrow> py_value \<Rightarrow> string list option" where
  "find_matching_sentences_for_word R file input_word =
     map_option (\<lambda>r. case r of Inl e \<Rightarrow> [] | Inr ms \<Rightarrow> ms) (find_body R file input_word)"


section \<open>The corpus store\<close>

text \<open>
  The state the handlers share: the module variable \<open>word_list\<close>, the text of the corpus
  file, and how many times the corpus file has been opened for writing.
\<close>

record state =
  word_list :: "string list"
  corpus_file :: string
  writes :: nat

text \<open>
  What opening the corpus file for writing does: it succeeds, it raises
  \<open>FileNotFoundError\<close>, or it raises another exception (a \<open>PermissionError\<close>, say). In
  the last two cases nothing is written.
\<close>

datatype write_outcome = Write_ok | Write_not_found | Write_refused

text \<open>
  \<open>file_operation(file_path, 'write', data)\<close>: the value returned, or the
  \<open>FileNotFoundError\<close> raised again; any other exception is logged and the string
  \<open>"exception occurred"\<close> is returned.
\<close>

fun file_operation_write :: "write_outcome \<Rightarrow> string \<Rightarrow> state \<Rightarrow> (exn + string) \<times> state" where
  "file_operation_write Write_ok data st =
     (Inr ''write successful'', st\<lparr>corpus_file := data, writes := writes st + 1\<rparr>)"
| "file_operation_write Write_not_found data st =
     (Inl FileNotFoundError, st\<lparr>writes := writes st + 1\<rparr>)"
| "file_operation_write Write_refused data st =
     (Inr ''exception occurred'', st\<lparr>writes := writes st + 1\<rparr>)"

text \<open>
  \<open>save_corpus\<close>: what \<open>file_operation\<close> returns is dropped, and the word list is
  returned. The result is an \<open>option\<close> because the callers test it against \<open>None\<close>.
\<close>

definition save_corpus ::
  "write_outcome \<Rightarrow> string list \<Rightarrow> state \<Rightarrow> (exn + string list option) \<times> state" where
  "save_corpus io new_word_list st =
     (case file_operation_write io (join '' '' new_word_list) st of
        (Inl e, st') \<Rightarrow> (Inl e, st')
      | (Inr _, st') \<Rightarrow> (Inr (Some new_word_list), st'))"


section \<open>The request handlers\<close>

text \<open>
  \<open>get_similar_words\<close>. \<open>find_most_similar_words\<close> is outside the sources; it is the
  parameter \<open>similar\<close>, from the query word and the word list (the vocabulary is fixed) to
  the similar words or an exception.
\<close>

fun get_similar_words ::
  "(string \<Rightarrow> string list \<Rightarrow> exn + string list) \<Rightarrow> string option \<Rightarrow> state \<Rightarrow> response" where
  "get_similar_words similar None st = handle_error invalid_input"
| "get_similar_words similar (Some query_word) st =
     (if validate_input_string (PyStr query_word) ''query_word'' \<noteq> None
      then handle_error invalid_input
      else (case similar query_word (word_list st) of
              Inl e \<Rightarrow> handle_error internal_error
            | Inr similar_words \<Rightarrow> Similar_words query_word similar_words))"

text \<open>
  \<open>find_similar_sentences\<close>. \<open>None.split\<close> raises \<open>AttributeError\<close> when the parameter is
  missing. Each call of \<open>find_matching_sentences_for_word\<close> reads the corpus file again.
\<close>

fun extend_all :: "nat \<Rightarrow> string option \<Rightarrow> string list \<Rightarrow> string list \<Rightarrow> string list option" where
  "extend_all R file [] matching_sentences = Some matching_sentences"
| "extend_all R file (word # words) matching_sentences =
     (case find_matching_sentences_for_word R file (PyStr word) of
        None \<Rightarrow> None
      | Some ms \<Rightarrow> extend_all R file words (matching_sentences @ ms))"

definition find_similar_sentences :: "nat \<Rightarrow> string option \<Rightarrow> string option \<Rightarrow> response option" where
  "find_similar_sentences R file similar_words =
     (case similar_words of
        None \<Rightarrow> Some (handle_error internal_error)
      | Some sw \<Rightarrow>
          map_option Matching_sentences (extend_all R file (take 3 (split_comma sw)) []))"

text \<open>\<open>find_matching_sentences\<close>.\<close>

definition find_matching_sentences :: "nat \<Rightarrow> string option \<Rightarrow> string option \<Rightarrow> response option" where
  "find_matching_sentences R file input =
     map_option Matching_sentences (find_matching_sentences_for_word R file (arg_value input))"

text \<open>\<open>add_word\<close>, given the field \<open>word\<close> of the JSON object of the request.\<close>

fun add_word :: "write_outcome \<Rightarrow> py_value \<Rightarrow> state \<Rightarrow> response \<times> state" where
  "add_word io PyNone st = (handle_error invalid_input, st)"
| "add_word io PyOther st = (handle_error invalid_input, st)"
| "add_word io (PyStr new_word) st =
     (if validate_input_string (PyStr new_word) ''new word'' \<noteq> None
      then (handle_error invalid_input, st)
      else
        let st1 = st\<lparr>word_list := word_list st @ [new_word]\<rparr> in
        (case save_corpus io (word_list st1) st1 of
           (Inl e, st2) \<Rightarrow> (handle_error internal_error, st2)
         | (Inr None, st2) \<Rightarrow> (handle_error internal_error, st2)
         | (Inr (Some saved_word_list), st2) \<Rightarrow> (Word_added new_word, st2)))"

text \<open>
  The loop of \<open>remove_similar_word\<close>: \<open>list.remove\<close> deletes the first occurrence.
\<close>

function remove_loop :: "string \<Rightarrow> string list \<Rightarrow> nat \<Rightarrow> string list \<times> nat" where
  "remove_loop target_word wl removed_count =
     (if target_word \<in> set wl
      then remove_loop target_word (remove1 target_word wl) (removed_count + 1)
      else (wl, removed_count))"
  by pat_completeness auto
termination
  by (relation "measure (\<lambda>(t, wl, n). length wl)")
     (auto simp: length_remove1 dest: length_pos_if_in_set)

declare remove_loop.simps [simp del]

text \<open>\<open>remove_similar_word\<close>, given the query parameter \<open>word\<close>.\<close>

fun remove_similar_word :: "write_outcome \<Rightarrow> string option \<Rightarrow> state \<Rightarrow> response \<times> state" where
  "remove_similar_word io None st = (handle_error invalid_input, st)"
| "remove_similar_word io (Some target_word) st =
     (if validate_input_string (PyStr target_word) ''target word'' \<noteq> None
      then (handle_error invalid_input, st)
      else
        let (wl, removed_count) = remove_loop target_word (word_list st) 0;
            st1 = st\<lparr>word_list := wl\<rparr>
        in if removed_count > 0
           then (case save_corpus io (word_list st1) st1 of
                   (Inl e, st2) \<Rightarrow> (handle_error internal_error, st2)
                 | (Inr None, st2) \<Rightarrow> (handle_error internal_error, st2)
                 | (Inr (Some saved_word_list), st2) \<Rightarrow> (Removed removed_count target_word, st2))
           else (No_occurrences target_word, st1))"

text \<open>
  The loop of \<open>replace_word\<close>, over the indices of the list, which it updates in place.
\<close>

function replace_loop :: "string \<Rightarrow> string \<Rightarrow> nat \<Rightarrow> string list \<Rightarrow> nat \<Rightarrow> string list \<times> nat" where
  "replace_loop old_word new_word index wl replaced_count =
     (if index < length wl
      then (if lower (wl ! index) = lower old_word
            then replace_loop old_word new_word (index + 1) (wl[index := new_word]) (replaced_count + 1)
            else replace_loop old_word new_word (index + 1) wl replaced_count)
      else (wl, replaced_count))"
  by pat_completeness auto
termination
  by (relation "measure (\<lambda>(old, new, i, wl, n). length wl - i)") auto

declare replace_loop.simps [simp del]

text \<open>
  \<open>replace_word\<close>, given the fields \<open>old_word\<close> and \<open>new_word\<close> of the JSON object of the
  request. What \<open>save_corpus\<close> returns is not looked at.
\<close>

fun replace_word :: "write_outcome \<Rightarrow> py_value \<Rightarrow> py_value \<Rightarrow> state \<Rightarrow> response \<times> state" where
  "replace_word io (PyStr old_word) (PyStr new_word) st =
     (if validate_input_string (PyStr old_word) ''old word'' \<noteq> None
      then (handle_error invalid_input, st)
      else if validate_input_string (PyStr new_word) ''new word'' \<noteq> None
      then (handle_error invalid_input, st)
      else
        let (wl, replaced_count) = replace_loop old_word new_word 0 (word_list st) 0;
            st1 = st\<lparr>word_list := wl\<rparr>
        in (case save_corpus io (word_list st1) st1 of
              (Inl e, st2) \<Rightarrow> (handle_error internal_error, st2)
            | (Inr saved, st2) \<Rightarrow>
                if replaced_count > 0
                then (Replaced replaced_count old_word new_word, st2)
                else (handle_error not_found_in_corpus, st2)))"
| "replace_word io old_word new_word st = (handle_error invalid_input, st)"

text \<open>\<open>get_corpus\<close>.\<close>

definition get_corpus :: "state \<Rightarrow> response" where
  "get_corpus st = Corpus (word_list st)"


section \<open>The rules in the words of the specification\<close>

text \<open>The terminal marks of the segmentation rule: \<open>.\<close>, \<open>!\<close> and \<open>?\<close>.\<close>

definition is_terminal :: "char \<Rightarrow> bool" where
  "is_terminal c = (c \<in> set ''.!?'')"

text \<open>The five punctuation marks of the tokenizer rule.\<close>

definition is_mark :: "char \<Rightarrow> bool" where
  "is_mark c = (c \<in> set ''.,!?;'')"

text \<open>
  The segmentation rule in the specification's words: the text is split at every point
  where a terminal mark is immediately followed by whitespace; the whitespace that
  follows, all of it, belongs to neither segment. \<open>acc\<close> is the segment being read,
  reversed.
\<close>

function sentences_spec :: "string \<Rightarrow> string \<Rightarrow> string list" where
  "sentences_spec acc [] = [rev acc]"
| "sentences_spec acc [c] = [rev (c # acc)]"
| "sentences_spec acc (c # d # cs) =
     (if is_terminal c \<and> is_space d
      then rev (c # acc) # sentences_spec [] (dropWhile is_space cs)
      else sentences_spec (c # acc) (d # cs))"
  by pat_completeness auto
termination
  by (relation "measure (\<lambda>(acc, s). length s)")
     (auto simp: less_Suc_eq_le intro: le_trans [OF length_dropWhile_le])

text \<open>A text has a break when a terminal mark in it is immediately followed by whitespace.\<close>

fun has_break :: "string \<Rightarrow> bool" where
  "has_break (c # d # cs) = (is_terminal c \<and> is_space d \<or> has_break (d # cs))"
| "has_break cs = False"

text \<open>The segments with the separators put back between them.\<close>

fun weave :: "string list \<Rightarrow> string list \<Rightarrow> string" where
  "weave [] seps = []"
| "weave (seg # segs) [] = seg"
| "weave (seg # segs) (sep # seps) = seg @ sep @ weave segs seps"

text \<open>A separator is whitespace, one character at least.\<close>

definition separator :: "string \<Rightarrow> bool" where
  "separator sep = (sep \<noteq> [] \<and> list_all is_space sep)"

text \<open>A segment that ends with a terminal mark.\<close>

definition ends_sentence :: "string \<Rightarrow> bool" where
  "ends_sentence seg = (seg \<noteq> [] \<and> is_terminal (last seg))"

text \<open>A segment that does not begin with whitespace.\<close>

definition starts_clean :: "string \<Rightarrow> bool" where
  "starts_clean seg = (seg = [] \<or> \<not> is_space (hd seg))"

text \<open>
  The tokenizer rule in the specification's words: the maximal runs of word characters
  and the single punctuation marks, in the order of the input; every other character is
  dropped.
\<close>

function tokens_spec :: "string \<Rightarrow> string list" where
  "tokens_spec [] = []"
| "tokens_spec (c # cs) =
     (if is_word c then (c # takeWhile is_word cs) # tokens_spec (dropWhile is_word cs)
      else if is_mark c then [c] # tokens_spec cs
      else tokens_spec cs)"
  by pat_completeness auto
termination
  by (relation "measure length") (auto simp: less_Suc_eq_le length_dropWhile_le)

text \<open>The characters that the tokenizer rule keeps.\<close>

definition kept :: "char \<Rightarrow> bool" where
  "kept c = (is_word c \<or> is_mark c)"

text \<open>A token is a run of word characters or one punctuation mark.\<close>

definition token_shape :: "string \<Rightarrow> bool" where
  "token_shape t = (t \<noteq> [] \<and> list_all is_word t \<or> (\<exists>c. t = [c] \<and> is_mark c))"

text \<open>
  The ends of a greedy repetition of a one-character pattern: after each number of
  characters of the run, the longest first.
\<close>

fun run_ends :: "(char \<Rightarrow> bool) \<Rightarrow> string \<Rightarrow> cursor list" where
  "run_ends P [] = []"
| "run_ends P (c # cs) = (if P c then run_ends P cs @ [(Some c, cs)] else [])"

text \<open>Whether the character before a position is a word character, or a terminal mark.\<close>

definition word_prev :: "char option \<Rightarrow> bool" where
  "word_prev p = (case p of None \<Rightarrow> False | Some c \<Rightarrow> is_word c)"

definition terminal_prev :: "char option \<Rightarrow> bool" where
  "terminal_prev p = (case p of None \<Rightarrow> False | Some c \<Rightarrow> is_terminal c)"


text \<open>
  The context rule in the specification's words. The lowercase word occurs in the
  lowercase sentence at offset \<open>i\<close>.
\<close>

definition occurs_at :: "string \<Rightarrow> string \<Rightarrow> nat \<Rightarrow> bool" where
  "occurs_at w s i = (i \<le> length s \<and> prefix (lower w) (drop i (lower s)))"

text \<open>
  Offset \<open>i\<close> of the sentence is a word boundary, as \<open>\b\<close> has it: of the characters before
  and after it, exactly one is a word character (an end of the sentence counts as a
  non-word character).
\<close>

definition boundary :: "string \<Rightarrow> nat \<Rightarrow> bool" where
  "boundary s i = ((0 < i \<and> is_word (s ! (i - 1))) \<noteq> (i < length s \<and> is_word (s ! i)))"

text \<open>
  What the pattern of a word asks of a sentence: an occurrence with a word boundary at each
  end.
\<close>

definition boundary_match :: "string \<Rightarrow> string \<Rightarrow> bool" where
  "boundary_match w s = (\<exists>i. occurs_at w s i \<and> boundary s i \<and> boundary s (i + length w))"

text \<open>
  The part of the sentence from offset \<open>i\<close> to offset \<open>j\<close> is bounded by non-word characters:
  no word character stands just before it, and none just after it.
\<close>

definition bounded_by_non_word :: "string \<Rightarrow> nat \<Rightarrow> nat \<Rightarrow> bool" where
  "bounded_by_non_word s i j =
     (\<not> (0 < i \<and> is_word (s ! (i - 1))) \<and> \<not> (j < length s \<and> is_word (s ! j)))"

text \<open>
  The sentence has a case-insensitive whole-word match of the word, in the specification's
  words: an occurrence bounded by non-word characters.
\<close>

definition whole_word_match :: "string \<Rightarrow> string \<Rightarrow> bool" where
  "whole_word_match w s =
     (\<exists>i. occurs_at w s i \<and> bounded_by_non_word s i (i + length w))"

text \<open>
  The context: with \<open>idx\<close> the offset of the first occurrence, the sentence from
  \<open>max(0, idx - R)\<close> to \<open>min(len(sentence), idx + len(word) + R)\<close>, newlines replaced by
  spaces, whitespace trimmed at both ends.
\<close>

definition window :: "nat \<Rightarrow> string \<Rightarrow> string \<Rightarrow> string" where
  "window R w s =
     (let idx = (LEAST i. occurs_at w s i)
      in strip (replace_newlines (slice s (idx - R) (min (length s) (idx + length w + R)))))"

text \<open>The cursor of the matcher at offset \<open>i\<close> of a string.\<close>

definition cursor_of :: "string \<Rightarrow> nat \<Rightarrow> cursor" where
  "cursor_of s i = (if i = 0 then None else Some (s ! (i - 1)), drop i s)"


section \<open>Validation and saving\<close>

lemma strip_Nil: "strip [] = []"
  by (simp add: strip_def)

lemma strip_blank: "list_all is_space s \<Longrightarrow> strip s = []"
  by (auto simp: strip_def list_all_iff dest: set_dropWhileD)

lemma validate_str:
  "validate_input_string (PyStr s) f =
     (if strip s = [] then Some (''Invalid or missing '' @ f) else None)"
  by (auto simp: strip_Nil)

lemma save_corpus_ok:
  "save_corpus Write_ok wl st =
     (Inr (Some wl), st\<lparr>corpus_file := join '' '' wl, writes := writes st + 1\<rparr>)"
  by (simp add: save_corpus_def)

lemma save_corpus_refused:
  "save_corpus Write_refused wl st = (Inr (Some wl), st\<lparr>writes := writes st + 1\<rparr>)"
  by (simp add: save_corpus_def)

lemma save_corpus_not_found:
  "save_corpus Write_not_found wl st = (Inl FileNotFoundError, st\<lparr>writes := writes st + 1\<rparr>)"
  by (simp add: save_corpus_def)

lemmas save_corpus_simps = save_corpus_ok save_corpus_refused save_corpus_not_found


section \<open>The loops of the mutations\<close>

lemma filter_remove1_same: "filter (\<lambda>w. w \<noteq> t) (remove1 t wl) = filter (\<lambda>w. w \<noteq> t) wl"
  by (induction wl) auto

lemma count_list_remove1: "t \<in> set wl \<Longrightarrow> Suc (count_list (remove1 t wl) t) = count_list wl t"
  by (induction wl) auto

lemma filter_absent: "t \<notin> set wl \<Longrightarrow> filter (\<lambda>w. w \<noteq> t) wl = wl"
  by (induction wl) auto

lemma count_list_pos: "t \<in> set wl \<Longrightarrow> 0 < count_list wl t"
  using count_list_0_iff [of wl t] by auto

text \<open>The loop of the removal deletes every occurrence and counts them.\<close>

lemma remove_loop_eq:
  "remove_loop t wl n = (filter (\<lambda>w. w \<noteq> t) wl, n + count_list wl t)"
proof (induction t wl n rule: remove_loop.induct)
  case (1 t wl n)
  show ?case
  proof (cases "t \<in> set wl")
    case True
    have "remove_loop t wl n = remove_loop t (remove1 t wl) (n + 1)"
      using True by (subst remove_loop.simps) simp
    also have "\<dots> = (filter (\<lambda>w. w \<noteq> t) (remove1 t wl), n + 1 + count_list (remove1 t wl) t)"
      using 1 True by simp
    finally show ?thesis
      using count_list_remove1 [OF True] by (simp add: filter_remove1_same)
  next
    case False
    then show ?thesis
      by (subst remove_loop.simps) (simp add: filter_absent count_list_0_iff)
  qed
qed

text \<open>
  The loop of the replacement, from any index on: the tokens before the index stay, the
  others are mapped.
\<close>

lemma replace_loop_eq:
  "replace_loop old new i wl n =
     (take i wl @ map (\<lambda>w. if lower w = lower old then new else w) (drop i wl),
      n + length (filter (\<lambda>w. lower w = lower old) (drop i wl)))"
proof (induction old new i wl n rule: replace_loop.induct)
  case (1 old new i wl n)
  show ?case
  proof (cases "i < length wl")
    case False
    then show ?thesis by (subst replace_loop.simps) simp
  next
    case True
    then have d: "drop i wl = wl ! i # drop (Suc i) wl"
      by (simp add: Cons_nth_drop_Suc)
    show ?thesis
    proof (cases "lower (wl ! i) = lower old")
      case m: True
      have "replace_loop old new i wl n = replace_loop old new (i + 1) (wl[i := new]) (n + 1)"
        using True m by (subst replace_loop.simps) simp
      also have "\<dots> =
        (take (i + 1) (wl[i := new]) @
           map (\<lambda>w. if lower w = lower old then new else w) (drop (i + 1) (wl[i := new])),
         n + 1 + length (filter (\<lambda>w. lower w = lower old) (drop (i + 1) (wl[i := new]))))"
        using 1(1) True m by simp
      finally show ?thesis
        using True m d by (simp add: take_Suc_conv_app_nth)
    next
      case m: False
      have "replace_loop old new i wl n = replace_loop old new (i + 1) wl n"
        using True m by (subst replace_loop.simps) simp
      then show ?thesis
        using 1(2) True m d by (simp add: take_Suc_conv_app_nth)
    qed
  qed
qed

lemma filter_none: "\<forall>w\<in>set wl. \<not> P w \<Longrightarrow> filter P wl = []"
  by (induction wl) auto

lemma map_unchanged: "\<forall>w\<in>set wl. \<not> P w \<Longrightarrow> map (\<lambda>w. if P w then y else w) wl = wl"
  by (induction wl) auto


section \<open>The handlers on a valid word\<close>

lemma add_word_unfold:
  assumes "strip w \<noteq> []"
  shows "add_word io (PyStr w) st =
     (case save_corpus io (word_list st @ [w]) (st\<lparr>word_list := word_list st @ [w]\<rparr>) of
        (Inl e, st2) \<Rightarrow> (handle_error internal_error, st2)
      | (Inr None, st2) \<Rightarrow> (handle_error internal_error, st2)
      | (Inr (Some saved_word_list), st2) \<Rightarrow> (Word_added w, st2))"
  using assms by (simp add: validate_str del: validate_input_string.simps)

lemma remove_unfold:
  assumes "strip t \<noteq> []"
  shows "remove_similar_word io (Some t) st =
     (if t \<in> set (word_list st)
      then (case save_corpus io (filter (\<lambda>w. w \<noteq> t) (word_list st))
                   (st\<lparr>word_list := filter (\<lambda>w. w \<noteq> t) (word_list st)\<rparr>) of
              (Inl e, st2) \<Rightarrow> (handle_error internal_error, st2)
            | (Inr None, st2) \<Rightarrow> (handle_error internal_error, st2)
            | (Inr (Some saved_word_list), st2) \<Rightarrow>
                (Removed (count_list (word_list st) t) t, st2))
      else (No_occurrences t, st))"
proof (cases "t \<in> set (word_list st)")
  case True
  then have "0 < count_list (word_list st) t"
    by (rule count_list_pos)
  then show ?thesis
    using assms True
    by (simp add: validate_str remove_loop_eq del: validate_input_string.simps)
next
  case False
  then show ?thesis
    using assms
    by (simp add: validate_str remove_loop_eq filter_absent count_list_0_iff
             del: validate_input_string.simps)
qed

lemma replace_unfold:
  assumes "strip old \<noteq> []" and "strip new \<noteq> []"
  shows "replace_word io (PyStr old) (PyStr new) st =
     (case save_corpus io (map (\<lambda>w. if lower w = lower old then new else w) (word_list st))
             (st\<lparr>word_list := map (\<lambda>w. if lower w = lower old then new else w) (word_list st)\<rparr>) of
        (Inl e, st2) \<Rightarrow> (handle_error internal_error, st2)
      | (Inr saved, st2) \<Rightarrow>
          if 0 < length (filter (\<lambda>w. lower w = lower old) (word_list st))
          then (Replaced (length (filter (\<lambda>w. lower w = lower old) (word_list st))) old new, st2)
          else (handle_error not_found_in_corpus, st2))"
  using assms by (simp add: validate_str replace_loop_eq del: validate_input_string.simps)


section \<open>Removal\<close>

text \<open>
  C4. For a target word that passes validation, \<open>remove_similar_word\<close> leaves exactly the
  tokens different from the target (the comparison is on the exact string), in their
  order. When the target occurs and the save does not raise, the response reports the
  number of occurrences removed. When it does not occur, the response is the 404 response
  and the state is the one before: the word list, the corpus file and the number of
  writes. On the corpus \<open>a b a c\<close>, removing \<open>a\<close> leaves \<open>b c\<close> and reports 2.
\<close>

theorem remove_deletes_every_occurrence:
  "strip t \<noteq> [] \<Longrightarrow>
     word_list (snd (remove_similar_word io (Some t) st)) = filter (\<lambda>w. w \<noteq> t) (word_list st)
   \<and> (t \<in> set (word_list st) \<and> io \<noteq> Write_not_found \<longrightarrow>
        fst (remove_similar_word io (Some t) st) = Removed (count_list (word_list st) t) t)
   \<and> (t \<notin> set (word_list st) \<longrightarrow>
        remove_similar_word io (Some t) st = (No_occurrences t, st))
   \<and> remove_similar_word Write_ok (Some ''a'')
        \<lparr>word_list = [''a'', ''b'', ''a'', ''c''], corpus_file = f, writes = n\<rparr>
      = (Removed 2 ''a'', \<lparr>word_list = [''b'', ''c''], corpus_file = ''b c'', writes = n + 1\<rparr>)"
proof -
  assume v: "strip t \<noteq> []"
  have a: "word_list (snd (remove_similar_word io (Some t) st))
             = filter (\<lambda>w. w \<noteq> t) (word_list st)"
    by (cases io)
       (simp_all add: remove_unfold [OF v] save_corpus_simps filter_absent
                 del: remove_similar_word.simps)
  have b: "t \<in> set (word_list st) \<and> io \<noteq> Write_not_found \<longrightarrow>
        fst (remove_similar_word io (Some t) st) = Removed (count_list (word_list st) t) t"
    by (cases io)
       (simp_all add: remove_unfold [OF v] save_corpus_simps del: remove_similar_word.simps)
  have c: "t \<notin> set (word_list st) \<longrightarrow>
        remove_similar_word io (Some t) st = (No_occurrences t, st)"
    by (simp add: remove_unfold [OF v] del: remove_similar_word.simps)
  have va: "strip ''a'' \<noteq> []"
    by (simp add: strip_def is_space_def)
  have d: "remove_similar_word Write_ok (Some ''a'')
        \<lparr>word_list = [''a'', ''b'', ''a'', ''c''], corpus_file = f, writes = n\<rparr>
      = (Removed 2 ''a'', \<lparr>word_list = [''b'', ''c''], corpus_file = ''b c'', writes = n + 1\<rparr>)"
    by (simp add: remove_unfold [OF va] save_corpus_simps del: remove_similar_word.simps)
  from a b c d show ?thesis by blast
qed

theorem remove_deletes_every_occurrence_witness:
  "strip ''a'' \<noteq> []
   \<and> ''a'' \<in> set [''a'', ''b'', ''a'', ''c''] \<and> Write_ok \<noteq> Write_not_found
   \<and> remove_similar_word Write_ok (Some ''a'')
        \<lparr>word_list = [''a'', ''b'', ''a'', ''c''], corpus_file = ''a b a c'', writes = 0\<rparr>
      = (Removed 2 ''a'', \<lparr>word_list = [''b'', ''c''], corpus_file = ''b c'', writes = 1\<rparr>)
   \<and> ''z'' \<notin> set [''a'', ''b'', ''a'', ''c'']
   \<and> remove_similar_word Write_ok (Some ''z'')
        \<lparr>word_list = [''a'', ''b'', ''a'', ''c''], corpus_file = ''a b a c'', writes = 0\<rparr>
      = (No_occurrences ''z'',
         \<lparr>word_list = [''a'', ''b'', ''a'', ''c''], corpus_file = ''a b a c'', writes = 0\<rparr>)"
proof -
  have va: "strip ''a'' \<noteq> []" and vz: "strip ''z'' \<noteq> []"
    by (simp_all add: strip_def is_space_def)
  show ?thesis
    using va
      remove_deletes_every_occurrence [OF va, of Write_ok
        "\<lparr>word_list = [''a'', ''b'', ''a'', ''c''], corpus_file = ''a b a c'', writes = 0\<rparr>"
        "''a b a c''" 0]
      remove_deletes_every_occurrence [OF vz, of Write_ok
        "\<lparr>word_list = [''a'', ''b'', ''a'', ''c''], corpus_file = ''a b a c'', writes = 0\<rparr>"
        "''a b a c''" 0]
    by (simp del: remove_similar_word.simps)
qed


section \<open>Replacement\<close>

text \<open>
  C5. For an old and a new word that pass validation, \<open>replace_word\<close> puts the new word,
  as supplied, in the place of every token whose lowercase form is the lowercase form of
  the old word, and leaves the other tokens where they are. When the save does not raise,
  the response reports the number of replacements when there is one at least, and is the
  \<open>not_found_in_corpus\<close> response when there is none. On the corpus \<open>Cat dog CAT\<close>,
  replacing \<open>cat\<close> by \<open>feline\<close> gives \<open>feline dog feline\<close> and reports 2.
\<close>

theorem replace_case_insensitive:
  "strip old \<noteq> [] \<Longrightarrow> strip new \<noteq> [] \<Longrightarrow>
     word_list (snd (replace_word io (PyStr old) (PyStr new) st))
       = map (\<lambda>w. if lower w = lower old then new else w) (word_list st)
   \<and> (io \<noteq> Write_not_found \<longrightarrow>
        fst (replace_word io (PyStr old) (PyStr new) st)
          = (if 0 < length (filter (\<lambda>w. lower w = lower old) (word_list st))
             then Replaced (length (filter (\<lambda>w. lower w = lower old) (word_list st))) old new
             else handle_error not_found_in_corpus))
   \<and> replace_word Write_ok (PyStr ''cat'') (PyStr ''feline'')
        \<lparr>word_list = [''Cat'', ''dog'', ''CAT''], corpus_file = f, writes = n\<rparr>
      = (Replaced 2 ''cat'' ''feline'',
         \<lparr>word_list = [''feline'', ''dog'', ''feline''], corpus_file = ''feline dog feline'',
          writes = n + 1\<rparr>)"
proof -
  assume v: "strip old \<noteq> []" "strip new \<noteq> []"
  have a: "word_list (snd (replace_word io (PyStr old) (PyStr new) st))
       = map (\<lambda>w. if lower w = lower old then new else w) (word_list st)"
    by (cases io)
       (simp_all add: replace_unfold [OF v] save_corpus_simps del: replace_word.simps)
  have b: "io \<noteq> Write_not_found \<longrightarrow>
        fst (replace_word io (PyStr old) (PyStr new) st)
          = (if 0 < length (filter (\<lambda>w. lower w = lower old) (word_list st))
             then Replaced (length (filter (\<lambda>w. lower w = lower old) (word_list st))) old new
             else handle_error not_found_in_corpus)"
    by (cases io)
       (simp_all add: replace_unfold [OF v] save_corpus_simps del: replace_word.simps)
  have vc: "strip ''cat'' \<noteq> []" and vf: "strip ''feline'' \<noteq> []"
    by (simp_all add: strip_def is_space_def)
  have c: "replace_word Write_ok (PyStr ''cat'') (PyStr ''feline'')
        \<lparr>word_list = [''Cat'', ''dog'', ''CAT''], corpus_file = f, writes = n\<rparr>
      = (Replaced 2 ''cat'' ''feline'',
         \<lparr>word_list = [''feline'', ''dog'', ''feline''], corpus_file = ''feline dog feline'',
          writes = n + 1\<rparr>)"
    by (simp add: replace_unfold [OF vc vf] save_corpus_simps lower_def lower_char_def
             del: replace_word.simps)
  from a b c show ?thesis by blast
qed

theorem replace_case_insensitive_witness:
  "strip ''cat'' \<noteq> [] \<and> strip ''feline'' \<noteq> [] \<and> Write_refused \<noteq> Write_not_found
   \<and> word_list (snd (replace_word Write_refused (PyStr ''cat'') (PyStr ''feline'')
        \<lparr>word_list = [''Cat'', ''dog'', ''CAT''], corpus_file = ''Cat dog CAT'', writes = 0\<rparr>))
      = [''feline'', ''dog'', ''feline'']
   \<and> fst (replace_word Write_refused (PyStr ''cat'') (PyStr ''feline'')
        \<lparr>word_list = [''Cat'', ''dog'', ''CAT''], corpus_file = ''Cat dog CAT'', writes = 0\<rparr>)
      = Replaced 2 ''cat'' ''feline''"
proof -
  have vc: "strip ''cat'' \<noteq> []" and vf: "strip ''feline'' \<noteq> []"
    by (simp_all add: strip_def is_space_def)
  show ?thesis
    using vc vf
      replace_case_insensitive [OF vc vf, of Write_refused
        "\<lparr>word_list = [''Cat'', ''dog'', ''CAT''], corpus_file = ''Cat dog CAT'', writes = 0\<rparr>"
        "[]" 0]
    by (simp add: lower_def lower_char_def del: replace_word.simps)
qed

text \<open>
  C10. For an old and a new word that pass validation, when no token of the corpus has
  the lowercase form of the old word, \<open>replace_word\<close> leaves the word list as it is and
  still opens the corpus file for writing, once, whatever comes of it; when the write
  succeeds the file holds the unchanged tokens, joined by spaces, and the response is the
  \<open>not_found_in_corpus\<close> response. \<open>remove_similar_word\<close>, for a valid target that does not
  occur, does not open the file.
\<close>

theorem replace_without_match_still_saves:
  "strip old \<noteq> [] \<Longrightarrow> strip new \<noteq> [] \<Longrightarrow> \<forall>w\<in>set (word_list st). lower w \<noteq> lower old \<Longrightarrow>
     replace_word Write_ok (PyStr old) (PyStr new) st
       = (handle_error not_found_in_corpus,
          st\<lparr>corpus_file := join '' '' (word_list st), writes := writes st + 1\<rparr>)
   \<and> word_list (snd (replace_word io (PyStr old) (PyStr new) st)) = word_list st
   \<and> writes (snd (replace_word io (PyStr old) (PyStr new) st)) = writes st + 1
   \<and> (strip t \<noteq> [] \<and> t \<notin> set (word_list st) \<longrightarrow>
        writes (snd (remove_similar_word io (Some t) st)) = writes st
        \<and> corpus_file (snd (remove_similar_word io (Some t) st)) = corpus_file st)"
proof -
  assume v: "strip old \<noteq> []" "strip new \<noteq> []"
    and none: "\<forall>w\<in>set (word_list st). lower w \<noteq> lower old"
  have m: "map (\<lambda>w. if lower w = lower old then new else w) (word_list st) = word_list st"
    using none by (intro map_unchanged) simp
  have f: "filter (\<lambda>w. lower w = lower old) (word_list st) = []"
    using none by (intro filter_none) simp
  have a: "replace_word Write_ok (PyStr old) (PyStr new) st
       = (handle_error not_found_in_corpus,
          st\<lparr>corpus_file := join '' '' (word_list st), writes := writes st + 1\<rparr>)"
    by (simp add: replace_unfold [OF v] m f save_corpus_simps del: replace_word.simps)
  have b: "word_list (snd (replace_word io (PyStr old) (PyStr new) st)) = word_list st"
    by (cases io)
       (simp_all add: replace_unfold [OF v] m f save_corpus_simps del: replace_word.simps)
  have c: "writes (snd (replace_word io (PyStr old) (PyStr new) st)) = writes st + 1"
    by (cases io)
       (simp_all add: replace_unfold [OF v] m f save_corpus_simps del: replace_word.simps)
  have d: "strip t \<noteq> [] \<and> t \<notin> set (word_list st) \<longrightarrow>
        writes (snd (remove_similar_word io (Some t) st)) = writes st
        \<and> corpus_file (snd (remove_similar_word io (Some t) st)) = corpus_file st"
    by (simp add: remove_unfold del: remove_similar_word.simps)
  from a b c d show ?thesis by blast
qed

theorem replace_without_match_still_saves_witness:
  "strip ''cow'' \<noteq> [] \<and> strip ''ox'' \<noteq> []
   \<and> lower ''Cat'' \<noteq> lower ''cow'' \<and> lower ''dog'' \<noteq> lower ''cow''
   \<and> replace_word Write_ok (PyStr ''cow'') (PyStr ''ox'')
        \<lparr>word_list = [''Cat'', ''dog''], corpus_file = ''Cat  dog.'', writes = 0\<rparr>
      = (handle_error not_found_in_corpus,
         \<lparr>word_list = [''Cat'', ''dog''], corpus_file = ''Cat dog'', writes = 1\<rparr>)
   \<and> ''cow'' \<notin> set [''Cat'', ''dog'']
   \<and> writes (snd (remove_similar_word Write_ok (Some ''cow'')
        \<lparr>word_list = [''Cat'', ''dog''], corpus_file = ''Cat  dog.'', writes = 0\<rparr>)) = 0
   \<and> corpus_file (snd (remove_similar_word Write_ok (Some ''cow'')
        \<lparr>word_list = [''Cat'', ''dog''], corpus_file = ''Cat  dog.'', writes = 0\<rparr>))
      = ''Cat  dog.''"
proof -
  have vc: "strip ''cow'' \<noteq> []" and vo: "strip ''ox'' \<noteq> []"
    by (simp_all add: strip_def is_space_def)
  have none: "\<forall>w\<in>set (word_list
      \<lparr>word_list = [''Cat'', ''dog''], corpus_file = ''Cat  dog.'', writes = 0\<rparr>).
        lower w \<noteq> lower ''cow''"
    by (simp add: lower_def lower_char_def)
  show ?thesis
    using vc vo none
      replace_without_match_still_saves [OF vc vo none, of Write_ok "''cow''"]
    by (simp del: replace_word.simps remove_similar_word.simps)
qed


section \<open>Addition\<close>

text \<open>
  C8. For a word that passes validation, \<open>add_word\<close> appends it to the word list: the
  tokens that were there come first, unchanged and in their order, and the word is the
  last token of what \<open>get_corpus\<close> returns afterwards. Nothing is asked about the word
  occurring already. When the save does not raise, the response is the success response
  with the word. After adding \<open>lighthouse\<close>, \<open>get_corpus\<close> ends with \<open>lighthouse\<close>.
\<close>

theorem add_appends_unconditionally:
  "strip w \<noteq> [] \<Longrightarrow>
     word_list (snd (add_word io (PyStr w) st)) = word_list st @ [w]
   \<and> get_corpus (snd (add_word io (PyStr w) st)) = Corpus (word_list st @ [w])
   \<and> (io \<noteq> Write_not_found \<longrightarrow> fst (add_word io (PyStr w) st) = Word_added w)
   \<and> get_corpus (snd (add_word Write_ok (PyStr ''lighthouse'') st))
      = Corpus (word_list st @ [''lighthouse''])"
proof -
  assume v: "strip w \<noteq> []"
  have a: "word_list (snd (add_word io (PyStr w) st)) = word_list st @ [w]"
    by (cases io) (simp_all add: add_word_unfold [OF v] save_corpus_simps del: add_word.simps)
  have b: "io \<noteq> Write_not_found \<longrightarrow> fst (add_word io (PyStr w) st) = Word_added w"
    by (cases io) (simp_all add: add_word_unfold [OF v] save_corpus_simps del: add_word.simps)
  have vl: "strip ''lighthouse'' \<noteq> []"
    by (simp add: strip_def is_space_def)
  have c: "get_corpus (snd (add_word Write_ok (PyStr ''lighthouse'') st))
      = Corpus (word_list st @ [''lighthouse''])"
    by (simp add: get_corpus_def add_word_unfold [OF vl] save_corpus_simps del: add_word.simps)
  from a b c show ?thesis by (simp add: get_corpus_def del: add_word.simps)
qed

theorem add_appends_unconditionally_witness:
  "strip ''sea'' \<noteq> [] \<and> Write_ok \<noteq> Write_not_found
   \<and> add_word Write_ok (PyStr ''sea'')
        \<lparr>word_list = [''the'', ''sea''], corpus_file = ''the sea'', writes = 0\<rparr>
      = (Word_added ''sea'',
         \<lparr>word_list = [''the'', ''sea'', ''sea''], corpus_file = ''the sea sea'', writes = 1\<rparr>)
   \<and> get_corpus (snd (add_word Write_ok (PyStr ''sea'')
        \<lparr>word_list = [''the'', ''sea''], corpus_file = ''the sea'', writes = 0\<rparr>))
      = Corpus [''the'', ''sea'', ''sea'']"
proof -
  have v: "strip ''sea'' \<noteq> []"
    by (simp add: strip_def is_space_def)
  show ?thesis
    using v
      add_appends_unconditionally [OF v, of Write_ok
        "\<lparr>word_list = [''the'', ''sea''], corpus_file = ''the sea'', writes = 0\<rparr>"]
    by (simp add: add_word_unfold [OF v] save_corpus_simps get_corpus_def del: add_word.simps)
qed



section \<open>A save that fails\<close>

text \<open>
  C2. When opening the corpus file for writing raises an exception other than
  \<open>FileNotFoundError\<close>, \<open>file_operation\<close> returns the string \<open>"exception occurred"\<close>,
  \<open>save_corpus\<close> drops it and returns the word list, and each of the three mutations
  answers with its success response: the word list has changed, the file has not. Here on
  the corpus \<open>a\<close>: adding \<open>x\<close>, removing \<open>a\<close>, replacing \<open>a\<close> by \<open>b\<close>.
\<close>

theorem refused_save_reported_as_success:
  "add_word Write_refused (PyStr ''x'') \<lparr>word_list = [''a''], corpus_file = ''a'', writes = 0\<rparr>
     = (Word_added ''x'', \<lparr>word_list = [''a'', ''x''], corpus_file = ''a'', writes = 1\<rparr>)
   \<and> remove_similar_word Write_refused (Some ''a'')
       \<lparr>word_list = [''a''], corpus_file = ''a'', writes = 0\<rparr>
     = (Removed 1 ''a'', \<lparr>word_list = [], corpus_file = ''a'', writes = 1\<rparr>)
   \<and> replace_word Write_refused (PyStr ''a'') (PyStr ''b'')
       \<lparr>word_list = [''a''], corpus_file = ''a'', writes = 0\<rparr>
     = (Replaced 1 ''a'' ''b'', \<lparr>word_list = [''b''], corpus_file = ''a'', writes = 1\<rparr>)"
proof -
  have v: "strip ''x'' \<noteq> []" "strip ''a'' \<noteq> []" "strip ''b'' \<noteq> []"
    by (simp_all add: strip_def is_space_def)
  show ?thesis
    by (simp add: add_word_unfold remove_unfold replace_unfold v save_corpus_simps
                  lower_def lower_char_def
             del: add_word.simps remove_similar_word.simps replace_word.simps)
qed


section \<open>Blank and missing input\<close>

lemma split_on_no_sep: "sep \<notin> set s \<Longrightarrow> split_on sep acc s = [rev acc @ s]"
  by (induction s arbitrary: acc) auto

lemma comma_not_space: "\<not> is_space CHR '',''"
  by (simp add: is_space_def)

lemma blank_no_comma: "list_all is_space s \<Longrightarrow> CHR '','' \<notin> set s"
  using comma_not_space by (auto simp: list_all_iff)

lemma find_blank:
  "strip s = [] \<Longrightarrow> find_matching_sentences_for_word R file (PyStr s) = Some []"
  by (simp add: find_matching_sentences_for_word_def validate_str
           del: validate_input_string.simps)

lemma find_missing: "find_matching_sentences_for_word R file PyNone = Some []"
  by (simp add: find_matching_sentences_for_word_def)

lemma similar_blank:
  assumes "list_all is_space s"
  shows "find_similar_sentences R file (Some s) = Some (Matching_sentences [])"
proof -
  have "split_comma s = [s]"
    using split_on_no_sep [OF blank_no_comma [OF assms], of "[]"] by (simp add: split_comma_def)
  then show ?thesis
    by (simp add: find_similar_sentences_def find_blank [OF strip_blank [OF assms]])
qed

lemma replace_invalid_old:
  "strip s = [] \<Longrightarrow> replace_word io (PyStr s) new st = (handle_error invalid_input, st)"
  by (cases new) (simp_all add: validate_str del: validate_input_string.simps)

lemma replace_invalid_new:
  "strip s = [] \<Longrightarrow> replace_word io old (PyStr s) st = (handle_error invalid_input, st)"
  by (cases old) (simp_all add: validate_str del: validate_input_string.simps)

text \<open>
  C3, as the claim states it, fails: \<open>find_matching_sentences\<close> answers an empty word with
  the success response and an empty list, and \<open>find_similar_sentences\<close> answers a missing
  parameter with the \<open>internal_error\<close> response.
\<close>

theorem blank_input_not_always_invalid_input:
  "find_matching_sentences 5 (Some ''The quick fox jumps.'') (Some [])
     = Some (Matching_sentences [])
   \<and> find_matching_sentences 5 (Some ''The quick fox jumps.'') (Some [])
     \<noteq> Some (handle_error invalid_input)
   \<and> find_similar_sentences 5 (Some ''The quick fox jumps.'') None
     = Some (handle_error internal_error)
   \<and> find_similar_sentences 5 (Some ''The quick fox jumps.'') None
     \<noteq> Some (handle_error invalid_input)"
  by (simp add: find_matching_sentences_def find_similar_sentences_def find_blank strip_Nil
                handle_error_def)

text \<open>
  C3, amended. Let \<open>s\<close> be empty or made of whitespace only. \<open>get_similar_words\<close>,
  \<open>add_word\<close>, \<open>remove_similar_word\<close> and \<open>replace_word\<close> (for either of its two words)
  answer \<open>s\<close>, and a missing parameter or field, with the \<open>invalid_input\<close> response; the
  state is the one before, and the answer of \<open>get_similar_words\<close> does not depend on the
  similarity function. \<open>find_matching_sentences\<close> answers them with the success response
  and an empty list, whatever the corpus file holds. \<open>find_similar_sentences\<close> answers \<open>s\<close>
  in the same way, and a missing parameter with the \<open>internal_error\<close> response.
\<close>

theorem blank_input_by_endpoint:
  "list_all is_space s \<Longrightarrow>
     get_similar_words similar (Some s) st = handle_error invalid_input
   \<and> get_similar_words similar None st = handle_error invalid_input
   \<and> add_word io (PyStr s) st = (handle_error invalid_input, st)
   \<and> add_word io PyNone st = (handle_error invalid_input, st)
   \<and> remove_similar_word io (Some s) st = (handle_error invalid_input, st)
   \<and> remove_similar_word io None st = (handle_error invalid_input, st)
   \<and> replace_word io (PyStr s) new st = (handle_error invalid_input, st)
   \<and> replace_word io PyNone new st = (handle_error invalid_input, st)
   \<and> replace_word io old (PyStr s) st = (handle_error invalid_input, st)
   \<and> replace_word io old PyNone st = (handle_error invalid_input, st)
   \<and> find_matching_sentences R file (Some s) = Some (Matching_sentences [])
   \<and> find_matching_sentences R file None = Some (Matching_sentences [])
   \<and> find_similar_sentences R file (Some s) = Some (Matching_sentences [])
   \<and> find_similar_sentences R file None = Some (handle_error internal_error)"
proof -
  assume blank: "list_all is_space s"
  have b: "strip s = []"
    using blank by (rule strip_blank)
  have 1: "get_similar_words similar (Some s) st = handle_error invalid_input"
    by (simp add: validate_str b del: validate_input_string.simps)
  have 2: "get_similar_words similar None st = handle_error invalid_input"
    by simp
  have 3: "add_word io (PyStr s) st = (handle_error invalid_input, st)"
    by (simp add: validate_str b del: validate_input_string.simps)
  have 4: "remove_similar_word io (Some s) st = (handle_error invalid_input, st)"
    by (simp add: validate_str b del: validate_input_string.simps)
  have 5: "replace_word io PyNone new st = (handle_error invalid_input, st)"
    by simp
  have 10: "add_word io PyNone st = (handle_error invalid_input, st)"
    by simp
  have 11: "remove_similar_word io None st = (handle_error invalid_input, st)"
    by simp
  have 6: "replace_word io old PyNone st = (handle_error invalid_input, st)"
    by (cases old) simp_all
  have 7: "find_matching_sentences R file (Some s) = Some (Matching_sentences [])"
    by (simp add: find_matching_sentences_def find_blank [OF b])
  have 8: "find_matching_sentences R file None = Some (Matching_sentences [])"
    by (simp add: find_matching_sentences_def find_missing)
  have 9: "find_similar_sentences R file None = Some (handle_error internal_error)"
    by (simp add: find_similar_sentences_def)
  show ?thesis
    using 1 2 3 4 5 6 7 8 9 10 11 replace_invalid_old [OF b] replace_invalid_new [OF b]
      similar_blank [OF blank]
    by (simp del: add_word.simps remove_similar_word.simps replace_word.simps
                  get_similar_words.simps)
qed

theorem blank_input_by_endpoint_witness:
  "list_all is_space '' ''
   \<and> add_word Write_ok (PyStr '' '') \<lparr>word_list = [''a''], corpus_file = ''a'', writes = 0\<rparr>
     = (handle_error invalid_input, \<lparr>word_list = [''a''], corpus_file = ''a'', writes = 0\<rparr>)
   \<and> remove_similar_word Write_ok (Some '' '')
       \<lparr>word_list = [''a''], corpus_file = ''a'', writes = 0\<rparr>
     = (handle_error invalid_input, \<lparr>word_list = [''a''], corpus_file = ''a'', writes = 0\<rparr>)
   \<and> find_matching_sentences 5 (Some ''The quick fox jumps.'') (Some '' '')
     = Some (Matching_sentences [])
   \<and> find_similar_sentences 5 (Some ''The quick fox jumps.'') (Some '' '')
     = Some (Matching_sentences [])"
proof -
  have blank: "list_all is_space '' ''"
    by (simp add: is_space_def)
  show ?thesis
    using blank
      blank_input_by_endpoint [OF blank, of "\<lambda>q wl. Inr []"
        "\<lparr>word_list = [''a''], corpus_file = ''a'', writes = 0\<rparr>" Write_ok PyNone PyNone
        5 "Some ''The quick fox jumps.''"]
    by (simp del: add_word.simps remove_similar_word.simps replace_word.simps)
qed



section \<open>The matcher on the patterns of the program\<close>

lemma ends_atom:
  "ends ic (Atom a) (p, s) =
     (case s of [] \<Rightarrow> [] | c # cs \<Rightarrow> if atom_ok ic a c then [(Some c, cs)] else [])"
  by (simp add: ends.simps)

lemma ends_plus_atom_Nil: "ends ic (Plus (Atom a)) (p, []) = []"
  by (simp add: ends.simps)

lemma ends_plus_atom_Cons:
  "ends ic (Plus (Atom a)) (p, c # cs) =
     (if atom_ok ic a c then ends ic (Plus (Atom a)) (Some c, cs) @ [(Some c, cs)] else [])"
  by (subst ends.simps) (simp add: ends_atom)

lemma ends_plus_atom: "ends ic (Plus (Atom a)) (p, s) = run_ends (atom_ok ic a) s"
  by (induction s arbitrary: p) (simp_all add: ends_plus_atom_Nil ends_plus_atom_Cons)

lemma run_ends_first:
  "P c \<Longrightarrow> \<exists>rest. run_ends P (c # cs) = (Some (last (c # takeWhile P cs)), dropWhile P cs) # rest"
proof (induction cs arbitrary: c)
  case Nil
  then show ?case by simp
next
  case (Cons d ds)
  show ?case
  proof (cases "P d")
    case True
    from Cons.IH [OF True] obtain rest where
      "run_ends P (d # ds) = (Some (last (d # takeWhile P ds)), dropWhile P ds) # rest"
      by blast
    then show ?thesis
      using Cons.prems True by simp
  next
    case False
    then show ?thesis
      using Cons.prems by simp
  qed
qed

lemma boundary_iff: "at_word_boundary (p, s) = (word_prev p \<noteq> (s \<noteq> [] \<and> is_word (hd s)))"
  by (cases s) (simp_all add: at_word_boundary_def word_before_def word_after_def word_prev_def)

lemma ends_seq: "ends ic (Seq r1 r2) cu = concat (map (ends ic r2) (ends ic r1 cu))"
  by (simp add: ends.simps)

lemma ends_alt: "ends ic (Alt r1 r2) cu = ends ic r1 cu @ ends ic r2 cu"
  by (simp add: ends.simps)

lemma ends_boundary: "ends ic Word_boundary cu = (if at_word_boundary cu then [cu] else [])"
  by (simp add: ends.simps)

lemma ends_behind:
  "ends ic (Look_behind a) (p, s) =
     (case p of None \<Rightarrow> [] | Some c \<Rightarrow> if atom_ok ic a c then [(p, s)] else [])"
  by (simp add: ends.simps)

lemma last_run_word: "is_word c \<Longrightarrow> is_word (last (c # takeWhile is_word cs))"
proof -
  assume "is_word c"
  then have "\<forall>x\<in>set (c # takeWhile is_word cs). is_word x"
    by (auto dest: set_takeWhileD)
  then show ?thesis
    using last_in_set [of "c # takeWhile is_word cs"] by blast
qed

lemma run_end_boundary:
  "is_word c \<Longrightarrow> at_word_boundary (Some (last (c # takeWhile is_word cs)), dropWhile is_word cs)"
  using last_run_word [of c cs] hd_dropWhile [of is_word cs]
  by (auto simp: boundary_iff word_prev_def)

lemma match_token_Nil: "match_at False token_re (p, []) = None"
  by (simp add: match_at_def token_re_def ends_alt ends_seq ends_boundary ends_atom
                ends_plus_atom)

lemma match_token_word:
  assumes "is_word c" and "\<not> word_prev p"
  shows "match_at False token_re (p, c # cs)
           = Some (Some (last (c # takeWhile is_word cs)), dropWhile is_word cs)"
proof -
  obtain rest where r: "run_ends is_word (c # cs)
      = (Some (last (c # takeWhile is_word cs)), dropWhile is_word cs) # rest"
    using run_ends_first [of is_word c cs] assms(1) by blast
  have b: "at_word_boundary (p, c # cs)"
    using assms by (simp add: boundary_iff)
  have w: "atom_ok False Word_char = is_word"
    by (rule ext) simp
  show ?thesis
    using r b run_end_boundary [OF assms(1), of cs]
    by (simp add: match_at_def token_re_def ends_alt ends_seq ends_boundary ends_plus_atom w)
qed

lemma match_token_inside:
  assumes "is_word c" and "word_prev p"
  shows "match_at False token_re (p, c # cs) = None"
proof -
  have b: "\<not> at_word_boundary (p, c # cs)"
    using assms by (simp add: boundary_iff)
  have m: "c \<notin> set ''.,!?;''"
    using assms(1) by (auto simp: is_word_def is_upper_def is_lower_def is_digit_def)
  show ?thesis
    using b m
    by (simp add: match_at_def token_re_def ends_alt ends_seq ends_boundary ends_atom)
qed

lemma match_token_other:
  assumes "\<not> is_word c"
  shows "match_at False token_re (p, c # cs) = (if is_mark c then Some (Some c, cs) else None)"
proof -
  have w: "atom_ok False Word_char = is_word"
    by (rule ext) simp
  have "ends False (Seq (Plus (Atom Word_char)) Word_boundary) (p, c # cs) = []"
    using assms by (simp add: ends_seq ends_plus_atom w)
  then have "ends False (Seq Word_boundary (Seq (Plus (Atom Word_char)) Word_boundary)) (p, c # cs) = []"
    by (simp add: ends_seq [of _ Word_boundary] ends_boundary)
  then show ?thesis
    by (simp add: match_at_def token_re_def ends_alt ends_atom is_mark_def)
qed

lemma take_run:
  "take (Suc (length cs) - length (dropWhile P cs)) (c # cs) = c # takeWhile P cs"
proof -
  have "length cs = length (takeWhile P cs) + length (dropWhile P cs)"
    by (metis takeWhile_dropWhile_id length_append)
  then have "Suc (length cs) - length (dropWhile P cs) = Suc (length (takeWhile P cs))"
    by simp
  moreover have "take (length (takeWhile P cs)) cs = takeWhile P cs"
    using takeWhile_eq_take [of P cs] by simp
  ultimately show ?thesis by simp
qed

lemma findall_token:
  "findall_from False token_re (p, s)
     = tokens_spec (if word_prev p then dropWhile is_word s else s)"
proof (induction s arbitrary: p rule: length_induct)
  case (1 s)
  show ?case
  proof (cases s)
    case Nil
    then show ?thesis
      by (subst findall_from.simps) (simp add: match_token_Nil)
  next
    case (Cons c cs)
    have step: "findall_from False token_re (q, cs)
        = tokens_spec (if word_prev q then dropWhile is_word cs else cs)" for q
      using 1 Cons by simp
    show ?thesis
    proof (cases "is_word c")
      case w: True
      show ?thesis
      proof (cases "word_prev p")
        case True
        have "findall_from False token_re (p, c # cs) = findall_from False token_re (Some c, cs)"
          by (subst findall_from.simps) (simp add: match_token_inside [OF w True])
        then show ?thesis
          using Cons w True step [of "Some c"] by (simp add: word_prev_def)
      next
        case False
        let ?x = "Some (last (c # takeWhile is_word cs))"
        have le: "length (dropWhile is_word cs) < length (c # cs)"
          using length_dropWhile_le [of is_word cs] by simp
        have "length (dropWhile is_word cs) < length s"
          using le Cons by simp
        then have ih: "findall_from False token_re (?x, dropWhile is_word cs)
            = tokens_spec (dropWhile is_word cs)"
          using 1 last_run_word [OF w, of cs] by (simp add: dropWhile_idem word_prev_def)
        have "findall_from False token_re (p, c # cs)
            = (c # takeWhile is_word cs) # findall_from False token_re (?x, dropWhile is_word cs)"
          using le
          by (subst findall_from.simps) (simp add: match_token_word [OF w False] take_run)
        then show ?thesis
          using Cons w False ih by simp
      qed
    next
      case nw: False
      have d: "(if word_prev p then dropWhile is_word s else s) = c # cs"
        using Cons nw by simp
      show ?thesis
      proof (cases "is_mark c")
        case True
        have "findall_from False token_re (p, c # cs) = [c] # findall_from False token_re (Some c, cs)"
          by (subst findall_from.simps) (simp add: match_token_other [OF nw] True)
        then show ?thesis
          using Cons nw True step [of "Some c"] d by (simp add: word_prev_def)
      next
        case False
        have "findall_from False token_re (p, c # cs) = findall_from False token_re (Some c, cs)"
          by (subst findall_from.simps) (simp add: match_token_other [OF nw] False)
        then show ?thesis
          using Cons nw False step [of "Some c"] d by (simp add: word_prev_def)
      qed
    qed
  qed
qed

lemma tokenize_refines: "tokenize s = tokens_spec s"
  by (simp add: tokenize_def re_findall_def findall_token word_prev_def)

lemma space_not_terminal: "is_space c \<Longrightarrow> \<not> is_terminal c"
  by (auto simp: is_space_def is_terminal_def)

lemma last_run_space: "is_space c \<Longrightarrow> is_space (last (c # takeWhile is_space cs))"
proof -
  assume "is_space c"
  then have "\<forall>x\<in>set (c # takeWhile is_space cs). is_space x"
    by (auto dest: set_takeWhileD)
  then show ?thesis
    using last_in_set [of "c # takeWhile is_space cs"] by blast
qed

lemma match_sep_Nil: "match_at False sentence_sep_re (p, []) = None"
  by (cases p)
     (simp_all add: match_at_def sentence_sep_re_def ends_seq ends_behind ends_plus_atom)

lemma match_sep_Cons:
  "match_at False sentence_sep_re (p, d # ds) =
     (if terminal_prev p \<and> is_space d
      then Some (Some (last (d # takeWhile is_space ds)), dropWhile is_space ds)
      else None)"
proof (cases "terminal_prev p \<and> is_space d")
  case True
  then obtain c where p: "p = Some c" and c: "c \<in> set ''.!?''"
    by (cases p) (auto simp: terminal_prev_def is_terminal_def)
  obtain rest where r: "run_ends is_space (d # ds)
      = (Some (last (d # takeWhile is_space ds)), dropWhile is_space ds) # rest"
    using run_ends_first [of is_space d ds] True by blast
  have w: "atom_ok False Space_char = is_space"
    by (rule ext) simp
  show ?thesis
    using True p c r
    by (simp add: match_at_def sentence_sep_re_def ends_seq ends_behind ends_plus_atom w)
next
  case False
  have w: "atom_ok False Space_char = is_space"
    by (rule ext) simp
  show ?thesis
  proof (cases p)
    case None
    then show ?thesis
      by (simp add: match_at_def sentence_sep_re_def ends_seq ends_behind terminal_prev_def)
  next
    case (Some c)
    show ?thesis
    proof (cases "is_terminal c")
      case True
      then have nd: "\<not> is_space d"
        using False Some by (simp add: terminal_prev_def)
      then have "ends False (Plus (Atom Space_char)) (Some c, d # ds) = []"
        by (simp add: ends_plus_atom w)
      then have "ends False sentence_sep_re (p, d # ds) = []"
        by (simp add: sentence_sep_re_def ends_seq ends_behind Some)
      then show ?thesis
        using nd by (simp add: match_at_def)
    next
      case nt: False
      then have "c \<notin> set ''.!?''"
        by (simp add: is_terminal_def)
      then show ?thesis
        using nt Some
        by (simp add: match_at_def sentence_sep_re_def ends_seq ends_behind terminal_prev_def)
    qed
  qed
qed

lemma split_sep:
  "(\<not> terminal_prev p \<longrightarrow>
      split_from False sentence_sep_re [] (p, s) = sentences_spec [] s)
   \<and> (\<forall>c acc. split_from False sentence_sep_re (c # acc) (Some c, s) = sentences_spec acc (c # s))"
proof (induction s arbitrary: p rule: length_induct)
  case (1 s)
  show ?case
  proof (cases s)
    case Nil
    then show ?thesis
      by (simp add: split_from.simps)
  next
    case (Cons d ds)
    have ih1: "split_from False sentence_sep_re (c # acc) (Some c, ds) = sentences_spec acc (c # ds)"
      for c acc
      using 1 Cons by simp
    have a: "split_from False sentence_sep_re [] (p, d # ds) = sentences_spec [] (d # ds)"
      if "\<not> terminal_prev p"
    proof -
      have "split_from False sentence_sep_re [] (p, d # ds)
          = split_from False sentence_sep_re [d] (Some d, ds)"
        using that by (subst split_from.simps) (simp add: match_sep_Cons)
      then show ?thesis
        using ih1 [of d "[]"] by simp
    qed
    have b: "split_from False sentence_sep_re (c # acc) (Some c, d # ds)
        = sentences_spec acc (c # d # ds)" for c acc
    proof (cases "is_terminal c \<and> is_space d")
      case True
      let ?x = "Some (last (d # takeWhile is_space ds))"
      have le: "length (dropWhile is_space ds) < length (d # ds)"
        using length_dropWhile_le [of is_space ds] by simp
      then have "length (dropWhile is_space ds) < length s"
        using Cons by simp
      moreover have "\<not> terminal_prev ?x"
        using last_run_space [of d ds] True space_not_terminal
        by (simp add: terminal_prev_def)
      ultimately have ih2: "split_from False sentence_sep_re [] (?x, dropWhile is_space ds)
          = sentences_spec [] (dropWhile is_space ds)"
        using 1 by blast
      have "split_from False sentence_sep_re (c # acc) (Some c, d # ds)
          = rev (c # acc) # split_from False sentence_sep_re [] (?x, dropWhile is_space ds)"
        using True le
        by (subst split_from.simps) (simp add: match_sep_Cons terminal_prev_def)
      then show ?thesis
        using True ih2 by simp
    next
      case False
      have "split_from False sentence_sep_re (c # acc) (Some c, d # ds)
          = split_from False sentence_sep_re (d # c # acc) (Some d, ds)"
        using False
        by (subst split_from.simps) (auto simp: match_sep_Cons terminal_prev_def)
      then show ?thesis
        using False ih1 [of d "c # acc"] by auto
    qed
    show ?thesis
      using a b Cons by blast
  qed
qed

lemma split_sentences_refines: "split_sentences s = sentences_spec [] s"
  using split_sep [of None s]
  by (simp add: split_sentences_def re_split_def terminal_prev_def)

lemma filter_kept_run:
  "filter kept cs = takeWhile is_word cs @ filter kept (dropWhile is_word cs)"
proof -
  have t: "filter kept (takeWhile is_word cs) = takeWhile is_word cs"
    by (rule filter_True) (auto simp: kept_def dest: set_takeWhileD)
  have "filter kept cs = filter kept (takeWhile is_word cs @ dropWhile is_word cs)"
    by simp
  also have "\<dots> = filter kept (takeWhile is_word cs) @ filter kept (dropWhile is_word cs)"
    by (rule filter_append)
  finally show ?thesis
    by (simp only: t)
qed

lemma concat_tokens_spec: "concat (tokens_spec s) = filter kept s"
proof (induction s rule: tokens_spec.induct)
  case 1
  then show ?case by simp
next
  case (2 c cs)
  show ?case
  proof (cases "is_word c")
    case True
    then have "kept c"
      by (simp add: kept_def)
    then show ?thesis
      using True 2(1) filter_kept_run [of cs] by simp
  next
    case w: False
    show ?thesis
    proof (cases "is_mark c")
      case True
      then have "kept c"
        by (simp add: kept_def)
      then show ?thesis
        using w True 2(2) by simp
    next
      case False
      then have "\<not> kept c"
        using w by (simp add: kept_def)
      then show ?thesis
        using w False 2(3) by simp
    qed
  qed
qed

lemma shape_tokens_spec: "list_all token_shape (tokens_spec s)"
proof (induction s rule: tokens_spec.induct)
  case 1
  then show ?case by simp
next
  case (2 c cs)
  show ?case
  proof (cases "is_word c")
    case True
    then have "token_shape (c # takeWhile is_word cs)"
      by (auto simp: token_shape_def list_all_iff dest: set_takeWhileD)
    then show ?thesis
      using True 2(1) by simp
  next
    case False
    then show ?thesis
      using 2(2,3) by (simp add: token_shape_def)
  qed
qed

lemma has_break_snoc:
  "has_break (xs @ [c, d]) = (has_break (xs @ [c]) \<or> is_terminal c \<and> is_space d)"
  by (induction xs rule: has_break.induct) auto

lemma sentences_spec_not_Nil: "sentences_spec acc s \<noteq> []"
  by (induction acc s rule: sentences_spec.induct) auto

lemma sentences_spec_weave:
  "\<exists>seps. length seps + 1 = length (sentences_spec acc s)
      \<and> weave (sentences_spec acc s) seps = rev acc @ s
      \<and> list_all separator seps"
proof (induction acc s rule: sentences_spec.induct)
  case (1 acc)
  have "length ([]::string list) + 1 = length (sentences_spec acc [])
      \<and> weave (sentences_spec acc []) [] = rev acc @ [] \<and> list_all separator []"
    by simp
  then show ?case by blast
next
  case (2 acc c)
  have "length ([]::string list) + 1 = length (sentences_spec acc [c])
      \<and> weave (sentences_spec acc [c]) [] = rev acc @ [c] \<and> list_all separator []"
    by simp
  then show ?case by blast
next
  case (3 acc c d cs)
  show ?case
  proof (cases "is_terminal c \<and> is_space d")
    case True
    from 3(1) [OF True] obtain seps where
      s: "length seps + 1 = length (sentences_spec [] (dropWhile is_space cs))"
         "weave (sentences_spec [] (dropWhile is_space cs)) seps = dropWhile is_space cs"
         "list_all separator seps"
      by auto
    have sep: "separator (d # takeWhile is_space cs)"
      using True by (auto simp: separator_def list_all_iff dest: set_takeWhileD)
    have "length ((d # takeWhile is_space cs) # seps) + 1 = length (sentences_spec acc (c # d # cs))
      \<and> weave (sentences_spec acc (c # d # cs)) ((d # takeWhile is_space cs) # seps)
          = rev acc @ c # d # cs
      \<and> list_all separator ((d # takeWhile is_space cs) # seps)"
      using True s sep by simp
    then show ?thesis by blast
  next
    case False
    then show ?thesis
      using 3(2) by auto
  qed
qed

lemma sentences_spec_ends: "list_all ends_sentence (butlast (sentences_spec acc s))"
proof (induction acc s rule: sentences_spec.induct)
  case (3 acc c d cs)
  show ?case
  proof (cases "is_terminal c \<and> is_space d")
    case True
    then show ?thesis
      using 3(1) by (simp add: sentences_spec_not_Nil ends_sentence_def)
  next
    case False
    then show ?thesis
      using 3(2) by auto
  qed
qed simp_all

lemma no_break_take1: "\<not> has_break (take 1 xs)"
  by (cases xs) simp_all

lemma sentences_spec_no_break:
  "\<not> has_break (rev acc @ take 1 s) \<Longrightarrow>
     list_all (\<lambda>seg. \<not> has_break seg) (sentences_spec acc s)"
proof (induction acc s rule: sentences_spec.induct)
  case (3 acc c d cs)
  show ?case
  proof (cases "is_terminal c \<and> is_space d")
    case True
    have "\<not> has_break (take 1 (dropWhile is_space cs))"
      by (rule no_break_take1)
    then show ?thesis
      using True 3(1) 3(3) by simp
  next
    case False
    then have "\<not> has_break (rev (c # acc) @ take 1 (d # cs))"
      using 3(3) has_break_snoc [of "rev acc" c d] by simp
    then show ?thesis
      using False 3(2) by auto
  qed
qed simp_all

lemma sentences_spec_hd: "prefix (hd (sentences_spec acc s)) (rev acc @ s)"
  by (induction acc s rule: sentences_spec.induct) auto

lemma sentences_spec_starts: "list_all starts_clean (tl (sentences_spec acc s))"
proof (induction acc s rule: sentences_spec.induct)
  case (3 acc c d cs)
  show ?case
  proof (cases "is_terminal c \<and> is_space d")
    case True
    let ?rest = "sentences_spec [] (dropWhile is_space cs)"
    have p: "prefix (hd ?rest) (dropWhile is_space cs)"
      using sentences_spec_hd [of "[]" "dropWhile is_space cs"] by simp
    have "starts_clean (hd ?rest)"
    proof (cases "hd ?rest")
      case Nil
      then show ?thesis by (simp add: starts_clean_def)
    next
      case (Cons x xs)
      then obtain ys where "dropWhile is_space cs = x # ys"
        using p by (auto simp: prefix_def)
      then have "\<not> is_space x"
        using hd_dropWhile [of is_space cs] by auto
      then show ?thesis
        using Cons by (simp add: starts_clean_def)
    qed
    moreover obtain r rs where "?rest = r # rs"
      using sentences_spec_not_Nil [of "[]" "dropWhile is_space cs"] by (cases ?rest) auto
    ultimately have "list_all starts_clean ?rest"
      using 3(1) [OF True] by simp
    then show ?thesis
      using True by simp
  next
    case False
    then show ?thesis
      using 3(2) by auto
  qed
qed simp_all



section \<open>Sentences\<close>

text \<open>
  C6. \<open>split_sentences\<close>, that is \<open>re.split\<close> with the pattern \<^verbatim>\<open>(?<=[.!?])\s+\<close>, is the
  segmentation rule of the specification. In particular: the segments, with a separator
  of whitespace between each two, give the text back, in order; every segment but the
  last ends with a terminal mark; no segment has, inside it, a terminal mark immediately
  followed by whitespace; and no segment after the first begins with whitespace. The text
  \<open>A cat sat. A dog ran!\<close> gives the two sentences \<open>A cat sat.\<close> and \<open>A dog ran!\<close>.
\<close>

theorem sentences_split_at_breaks:
  "split_sentences raw = sentences_spec [] raw
   \<and> (\<exists>seps. length seps + 1 = length (split_sentences raw)
         \<and> weave (split_sentences raw) seps = raw
         \<and> list_all separator seps)
   \<and> list_all ends_sentence (butlast (split_sentences raw))
   \<and> list_all (\<lambda>seg. \<not> has_break seg) (split_sentences raw)
   \<and> list_all starts_clean (tl (split_sentences raw))
   \<and> split_sentences ''A cat sat. A dog ran!'' = [''A cat sat.'', ''A dog ran!'']"
proof -
  have r: "split_sentences t = sentences_spec [] t" for t
    by (rule split_sentences_refines)
  have a: "\<exists>seps. length seps + 1 = length (sentences_spec [] raw)
         \<and> weave (sentences_spec [] raw) seps = raw
         \<and> list_all separator seps"
    using sentences_spec_weave [of "[]" raw] by simp
  have b: "list_all ends_sentence (butlast (sentences_spec [] raw))"
    by (rule sentences_spec_ends)
  have "\<not> has_break (rev [] @ take 1 raw)"
    using no_break_take1 [of raw] by simp
  then have c: "list_all (\<lambda>seg. \<not> has_break seg) (sentences_spec [] raw)"
    by (rule sentences_spec_no_break)
  have d: "list_all starts_clean (tl (sentences_spec [] raw))"
    by (rule sentences_spec_starts)
  have e: "sentences_spec [] ''A cat sat. A dog ran!'' = [''A cat sat.'', ''A dog ran!'']"
    by (simp add: is_terminal_def is_space_def)
  show ?thesis
    using a b c d e by (simp only: r)
qed

theorem sentences_split_at_breaks_witness:
  "split_sentences ''Stop!  Who? me'' = [''Stop!'', ''Who?'', ''me'']
   \<and> weave (split_sentences ''Stop!  Who? me'') [''  '', '' ''] = ''Stop!  Who? me''
   \<and> list_all ends_sentence (butlast (split_sentences ''Stop!  Who? me''))"
proof -
  have e: "sentences_spec [] ''Stop!  Who? me'' = [''Stop!'', ''Who?'', ''me'']"
    by (simp add: is_terminal_def is_space_def)
  from sentences_split_at_breaks [of "''Stop!  Who? me''"]
  have "split_sentences ''Stop!  Who? me'' = sentences_spec [] ''Stop!  Who? me''"
    by (rule conjunct1)
  with e have e2: "split_sentences ''Stop!  Who? me'' = [''Stop!'', ''Who?'', ''me'']"
    by (simp only:)
  show ?thesis
    by (simp add: e2 ends_sentence_def is_terminal_def)
qed


section \<open>Tokens\<close>

text \<open>
  C7. \<open>tokenize\<close>, that is \<open>re.findall\<close> with the pattern \<^verbatim>\<open>\b\w+\b|[\.,!?;]\<close>, is the
  tokenizer rule of the specification: the maximal runs of word characters and the single
  marks \<open>.\<close> \<open>,\<close> \<open>!\<close> \<open>?\<close> \<open>;\<close>, in the order of the input. In particular the tokens, one after
  the other, are the characters of the input that are word characters or marks, in their
  order, and every token is a run of word characters or one mark. The tokens are a
  function of the text: the same text gives the same tokens.
\<close>

theorem tokenize_maximal_runs:
  "tokenize s = tokens_spec s
   \<and> concat (tokenize s) = filter kept s
   \<and> list_all token_shape (tokenize s)
   \<and> (s = s' \<longrightarrow> tokenize s = tokenize s')"
  by (simp add: tokenize_refines concat_tokens_spec shape_tokens_spec)

theorem tokenize_maximal_runs_witness:
  "tokenize ''Oh, no! a_1'' = tokens_spec ''Oh, no! a_1''
   \<and> tokens_spec ''Oh, no! a_1'' = [''Oh'', '','', ''no'', ''!'', ''a_1'']
   \<and> concat (tokenize ''Oh, no! a_1'') = ''Oh,no!a_1''"
proof -
  have e: "tokens_spec ''Oh, no! a_1'' = [''Oh'', '','', ''no'', ''!'', ''a_1'']"
    by (simp add: is_word_def is_upper_def is_lower_def is_digit_def is_mark_def)
  show ?thesis
    using tokenize_maximal_runs [of "''Oh, no! a_1''" "''Oh, no! a_1''"] e
    by simp
qed



section \<open>Similar sentences\<close>

lemma split_on_piece:
  "sep \<notin> set w \<Longrightarrow> split_on sep acc (w @ sep # rest) = (rev acc @ w) # split_on sep [] rest"
  by (induction w arbitrary: acc) auto

text \<open>Splitting at the commas undoes joining with commas words that have none.\<close>

lemma split_on_join:
  "ws \<noteq> [] \<Longrightarrow> \<forall>w\<in>set ws. sep \<notin> set w \<Longrightarrow> split_on sep [] (join [sep] ws) = ws"
proof (induction "[sep]" ws rule: join.induct)
  case 1
  then show ?case by simp
next
  case (2 x)
  then show ?case
    using split_on_no_sep [of sep x "[]"] by simp
next
  case (3 x y ys)
  then show ?case
    using split_on_piece [of sep x "[]" "join [sep] (y # ys)"] by simp
qed

lemma extend_all_eq:
  "extend_all R file ws acc
     = map_option (\<lambda>ms. acc @ concat ms)
         (those (map (\<lambda>w. find_matching_sentences_for_word R file (PyStr w)) ws))"
proof (induction ws arbitrary: acc)
  case Nil
  then show ?case by simp
next
  case (Cons w ws)
  show ?case
  proof (cases "find_matching_sentences_for_word R file (PyStr w)")
    case None
    then show ?thesis by simp
  next
    case (Some ms)
    then show ?thesis
      using Cons [of "acc @ ms"]
      by (cases "those (map (\<lambda>w. find_matching_sentences_for_word R file (PyStr w)) ws)")
         simp_all
  qed
qed

text \<open>
  C9. Let the parameter \<open>similar_words\<close> be the words \<open>ws\<close>, one at least and none with a
  comma in it, joined by commas. \<open>find_similar_sentences\<close> calls
  \<open>find_matching_sentences_for_word\<close> on each of the first three words, once, in their
  order, and answers with the lists it gets, one after the other. The words after the
  third change nothing: the answer is that for the first three alone.
\<close>

theorem similar_sentences_first_three:
  "ws \<noteq> [] \<Longrightarrow> \<forall>w\<in>set ws. CHR '','' \<notin> set w \<Longrightarrow>
     find_similar_sentences R file (Some (join '','' ws))
       = map_option (\<lambda>ms. Matching_sentences (concat ms))
           (those (map (\<lambda>w. find_matching_sentences_for_word R file (PyStr w)) (take 3 ws)))
   \<and> find_similar_sentences R file (Some (join '','' ws))
       = find_similar_sentences R file (Some (join '','' (take 3 ws)))"
proof -
  assume ne: "ws \<noteq> []" and nc: "\<forall>w\<in>set ws. CHR '','' \<notin> set w"
  have s: "split_comma (join '','' vs) = vs"
    if "vs \<noteq> []" and "\<forall>w\<in>set vs. CHR '','' \<notin> set w" for vs
    using that split_on_join [of vs "CHR '',''"] by (simp add: split_comma_def)
  have r: "find_similar_sentences R file (Some (join '','' vs))
       = map_option (\<lambda>ms. Matching_sentences (concat ms))
           (those (map (\<lambda>w. find_matching_sentences_for_word R file (PyStr w)) (take 3 vs)))"
    if "vs \<noteq> []" and "\<forall>w\<in>set vs. CHR '','' \<notin> set w" for vs
    using s [OF that]
    by (simp add: find_similar_sentences_def extend_all_eq option.map_comp comp_def)
  have ne3: "take 3 ws \<noteq> []"
    using ne by simp
  have nc3: "\<forall>w\<in>set (take 3 ws). CHR '','' \<notin> set w"
    using nc by (auto dest: in_set_takeD)
  show ?thesis
    using r [OF ne nc] r [OF ne3 nc3] by simp
qed

theorem similar_sentences_first_three_witness:
  "[''dog'', ''fox'', ''quick'', ''the''] \<noteq> []
   \<and> CHR '','' \<notin> set ''dog'' \<and> CHR '','' \<notin> set ''fox''
   \<and> CHR '','' \<notin> set ''quick'' \<and> CHR '','' \<notin> set ''the''
   \<and> find_similar_sentences 5 (Some ''The quick fox jumps. A dog.'')
        (Some ''dog,fox,quick,the'')
      = Some (Matching_sentences [''A dog.'', ''uick fox jump'', ''The quick fox''])"
proof -
  have ne: "[''dog'', ''fox'', ''quick'', ''the''] \<noteq> []"
    by simp
  have nc: "\<forall>w\<in>set [''dog'', ''fox'', ''quick'', ''the'']. CHR '','' \<notin> set w"
    by simp
  have f1: "find_matching_sentences_for_word 5 (Some ''The quick fox jumps. A dog.'')
      (PyStr ''dog'') = Some [''A dog.'']"
    by code_simp
  have f2: "find_matching_sentences_for_word 5 (Some ''The quick fox jumps. A dog.'')
      (PyStr ''fox'') = Some [''uick fox jump'']"
    by code_simp
  have f3: "find_matching_sentences_for_word 5 (Some ''The quick fox jumps. A dog.'')
      (PyStr ''quick'') = Some [''The quick fox'']"
    by code_simp
  show ?thesis
    using similar_sentences_first_three [OF ne nc, of 5 "Some ''The quick fox jumps. A dog.''"]
      f1 f2 f3
    by simp
qed



section \<open>The matcher on the pattern of a word\<close>

lemma cursor_of_0: "cursor_of s 0 = (None, s)"
  by (simp add: cursor_of_def)

lemma cursor_of_end: "cursor_of s (length s) = (fst (cursor_of s (length s)), [])"
  by (simp add: cursor_of_def)

lemma cursor_of_lt:
  "i < length s \<Longrightarrow> cursor_of s i = (fst (cursor_of s i), s ! i # drop (Suc i) s)"
  by (simp add: cursor_of_def Cons_nth_drop_Suc)

lemma cursor_of_Suc: "cursor_of s (Suc i) = (Some (s ! i), drop (Suc i) s)"
  by (simp add: cursor_of_def)

lemma word_after_iff: "word_after (p, t) = (t \<noteq> [] \<and> is_word (hd t))"
  by (cases t) (simp_all add: word_after_def)

lemma boundary_cursor: "i \<le> length s \<Longrightarrow> at_word_boundary (cursor_of s i) = boundary s i"
proof -
  assume "i \<le> length s"
  have b: "word_before (cursor_of s i) = (0 < i \<and> is_word (s ! (i - 1)))"
    by (simp add: word_before_def cursor_of_def)
  have a: "word_after (cursor_of s i) = (i < length s \<and> is_word (s ! i))"
    by (auto simp: cursor_of_def word_after_iff hd_drop_conv_nth)
  show ?thesis
    by (simp only: at_word_boundary_def a b boundary_def)
qed

lemma length_lower: "length (lower s) = length s"
  by (simp add: lower_def)

lemma occurs_at_Nil: "occurs_at [] s i = (i \<le> length s)"
  by (simp add: occurs_at_def lower_def)

lemma occurs_at_Cons:
  "occurs_at (c # w) s i
     = (i < length s \<and> lower_char (s ! i) = lower_char c \<and> occurs_at w s (Suc i))"
proof (cases "i < length s")
  case True
  then have "drop i (lower s) = lower_char (s ! i) # drop (Suc i) (lower s)"
    by (simp add: lower_def Cons_nth_drop_Suc [symmetric])
  then show ?thesis
    using True by (auto simp: occurs_at_def lower_def)
next
  case False
  then show ?thesis
    by (simp add: occurs_at_def lower_def)
qed

lemma occurs_at_length: "occurs_at w s i \<Longrightarrow> i + length w \<le> length s"
proof -
  assume o: "occurs_at w s i"
  then have "length (lower w) \<le> length (drop i (lower s))"
    unfolding occurs_at_def by (blast dest: prefix_length_le)
  moreover have "i \<le> length s"
    using o by (simp add: occurs_at_def)
  ultimately show ?thesis
    by (simp add: length_lower)
qed

lemma ends_literal:
  "i \<le> length s \<Longrightarrow>
     ends True (literal_re w r) (cursor_of s i)
       = (if occurs_at w s i then ends True r (cursor_of s (i + length w)) else [])"
proof (induction w arbitrary: i)
  case Nil
  then show ?case
    by (simp add: literal_re_def occurs_at_Nil)
next
  case (Cons c w)
  have l: "literal_re (c # w) r = Seq (Atom (Literal c)) (literal_re w r)"
    by (simp add: literal_re_def)
  show ?case
  proof (cases "i < length s")
    case True
    have a: "ends True (Atom (Literal c)) (cursor_of s i)
        = (if lower_char (s ! i) = lower_char c then [cursor_of s (Suc i)] else [])"
      by (subst cursor_of_lt [OF True]) (simp add: ends.simps cursor_of_Suc)
    show ?thesis
      using True Cons.IH [of "Suc i"]
      by (simp add: l ends.simps(2) a occurs_at_Cons)
  next
    case False
    then have "i = length s" using Cons.prems by simp
    then have "ends True (Atom (Literal c)) (cursor_of s i) = []"
      by (simp add: ends.simps cursor_of_def)
    then show ?thesis
      using False by (simp add: l ends.simps(2) occurs_at_Cons)
  qed
qed

lemma match_word:
  assumes "i \<le> length s"
  shows "(match_at True (Seq Word_boundary (literal_re w Word_boundary)) (cursor_of s i) \<noteq> None)
     = (boundary s i \<and> occurs_at w s i \<and> boundary s (i + length w))"
proof (cases "occurs_at w s i")
  case True
  then have "i + length w \<le> length s"
    by (rule occurs_at_length)
  then show ?thesis
    using assms True
    by (simp add: match_at_def ends.simps(2,5) ends_literal boundary_cursor)
next
  case False
  then show ?thesis
    using assms by (simp add: match_at_def ends.simps(2,5) ends_literal)
qed

lemma ex_from_split:
  "i < n \<Longrightarrow> (\<exists>k. i \<le> k \<and> k \<le> n \<and> P k) = (P i \<or> (\<exists>k. Suc i \<le> k \<and> k \<le> n \<and> P k))"
proof
  assume "i < n" and "\<exists>k. i \<le> k \<and> k \<le> n \<and> P k"
  then obtain k where k: "i \<le> k" "k \<le> n" "P k" by blast
  show "P i \<or> (\<exists>k. Suc i \<le> k \<and> k \<le> n \<and> P k)"
  proof (cases "k = i")
    case True
    then show ?thesis using k by simp
  next
    case False
    then have "Suc i \<le> k" using k by simp
    then show ?thesis using k by blast
  qed
next
  assume "i < n" and "P i \<or> (\<exists>k. Suc i \<le> k \<and> k \<le> n \<and> P k)"
  then show "\<exists>k. i \<le> k \<and> k \<le> n \<and> P k"
    by (metis Suc_leD less_imp_le order_refl)
qed

lemma search_from:
  "i \<le> length s \<Longrightarrow>
     re_search ic r (cursor_of s i)
       = (\<exists>k. i \<le> k \<and> k \<le> length s \<and> match_at ic r (cursor_of s k) \<noteq> None)"
proof (induction "length s - i" arbitrary: i)
  case 0
  then have i: "i = length s" by simp
  have "re_search ic r (cursor_of s (length s)) = (match_at ic r (cursor_of s (length s)) \<noteq> None)"
    by (subst cursor_of_end, subst (2) cursor_of_end) simp
  then show ?case
    using i by auto
next
  case (Suc n)
  then have lt: "i < length s" by simp
  have "re_search ic r (cursor_of s i)
      = (match_at ic r (cursor_of s i) \<noteq> None \<or> re_search ic r (cursor_of s (Suc i)))"
    by (subst cursor_of_lt [OF lt], subst (2) cursor_of_lt [OF lt]) (simp add: cursor_of_Suc)
  also have "re_search ic r (cursor_of s (Suc i))
      = (\<exists>k. Suc i \<le> k \<and> k \<le> length s \<and> match_at ic r (cursor_of s k) \<noteq> None)"
    using Suc(1) [of "Suc i"] Suc(2) lt by simp
  finally show ?case
    using ex_from_split [OF lt, of "\<lambda>k. match_at ic r (cursor_of s k) \<noteq> None"] by simp
qed

lemma search_word:
  "re_search True (Seq Word_boundary (literal_re w Word_boundary)) (None, s) = boundary_match w s"
proof -
  have "re_search True (Seq Word_boundary (literal_re w Word_boundary)) (cursor_of s 0)
      = (\<exists>k. k \<le> length s
           \<and> match_at True (Seq Word_boundary (literal_re w Word_boundary)) (cursor_of s k) \<noteq> None)"
    using search_from [of 0 s] by simp
  also have "\<dots> = (\<exists>k. k \<le> length s
      \<and> boundary s k \<and> occurs_at w s k \<and> boundary s (k + length w))"
    using match_word by blast
  also have "\<dots> = boundary_match w s"
    by (auto simp: boundary_match_def occurs_at_def)
  finally show ?thesis
    by (simp add: cursor_of_0)
qed

lemma str_index_Some:
  "str_index t u = Some i \<Longrightarrow>
     i \<le> length t \<and> prefix u (drop i t) \<and> (\<forall>j<i. \<not> prefix u (drop j t))"
proof (induction t arbitrary: i)
  case Nil
  then show ?case by (simp split: if_splits)
next
  case (Cons c cs)
  show ?case
  proof (cases "prefix u (c # cs)")
    case True
    then show ?thesis using Cons.prems by simp
  next
    case False
    then obtain i' where i: "i = Suc i'" and s: "str_index cs u = Some i'"
      using Cons.prems by auto
    have "j < Suc i' \<Longrightarrow> \<not> prefix u (drop j (c # cs))" for j
      using False Cons.IH [OF s] by (cases j) simp_all
    then show ?thesis
      using Cons.IH [OF s] i by simp
  qed
qed

lemma str_index_None:
  "str_index t u = None \<Longrightarrow> i \<le> length t \<Longrightarrow> \<not> prefix u (drop i t)"
proof (induction t arbitrary: i)
  case Nil
  then show ?case by (simp split: if_splits)
next
  case (Cons c cs)
  then show ?case
    by (cases i) (auto split: if_splits)
qed

lemma str_index_first:
  assumes "occurs_at w s k"
  shows "str_index (lower s) (lower w) = Some (LEAST i. occurs_at w s i)"
proof (cases "str_index (lower s) (lower w)")
  case None
  then show ?thesis
    using assms str_index_None [of "lower s" "lower w" k]
    by (simp add: occurs_at_def length_lower)
next
  case (Some i)
  note f = str_index_Some [OF Some]
  have o: "occurs_at w s i"
    using f by (simp add: occurs_at_def length_lower)
  have "i \<le> j" if "occurs_at w s j" for j
  proof (rule ccontr)
    assume "\<not> i \<le> j"
    then have "j < i" by simp
    then show False
      using f that by (simp add: occurs_at_def)
  qed
  then have "(LEAST i. occurs_at w s i) = i"
    using o by (intro Least_equality)
  then show ?thesis
    using Some by simp
qed

lemma context_of_window:
  assumes "boundary_match w s"
  shows "context_of R w s = Inr (window R w s)"
proof -
  obtain k where "occurs_at w s k"
    using assms by (auto simp: boundary_match_def)
  then have "str_index (lower s) (lower w) = Some (LEAST i. occurs_at w s i)"
    by (rule str_index_first)
  moreover have "nat (max (int n - int R) 0) = n - R" for n
    by simp
  ultimately show ?thesis
    by (simp add: context_of_def window_def Let_def min.commute)
qed

lemma sentence_loop_eq:
  "sentence_loop R (Seq Word_boundary (literal_re w Word_boundary)) w ss acc
     = Inr (acc @ map (window R w) (filter (boundary_match w) ss))"
  by (induction ss arbitrary: acc) (simp_all add: search_word context_of_window)

lemma find_plain:
  assumes "plain w" and "strip w \<noteq> []" and "ascii_text w" and "ascii_text corpus"
  shows "find_matching_sentences_for_word R (Some corpus) (PyStr w)
       = Some (map (window R w) (filter (boundary_match w) (split_sentences corpus)))"
  using assms
  by (simp add: find_matching_sentences_for_word_def validate_str word_re_def sentence_loop_eq
           del: validate_input_string.simps)


section \<open>Whole-word matches\<close>

lemma lower_char_upper: "is_upper c \<Longrightarrow> is_lower (lower_char c)"
  by (auto simp: is_upper_def is_lower_def lower_char_def)

lemma lower_char_other: "\<not> is_upper c \<Longrightarrow> lower_char c = c"
proof -
  assume "\<not> is_upper c"
  then have "map_of (zip ''ABCDEFGHIJKLMNOPQRSTUVWXYZ'' ''abcdefghijklmnopqrstuvwxyz'') c = None"
    unfolding is_upper_def by (subst map_of_zip_is_None) simp_all
  then show ?thesis
    by (simp add: lower_char_def)
qed

lemma word_lower_char: "is_word (lower_char c) = is_word c"
proof (cases "is_upper c")
  case True
  then show ?thesis
    using lower_char_upper [OF True] by (simp add: is_word_def)
next
  case False
  then show ?thesis
    by (simp add: lower_char_other)
qed

lemma lower_eq_word: "lower_char a = lower_char b \<Longrightarrow> is_word a = is_word b"
  using word_lower_char [of a] word_lower_char [of b] by simp

lemma occurs_first:
  assumes "occurs_at w s i" and "w \<noteq> []"
  shows "i < length s \<and> lower_char (s ! i) = lower_char (hd w)"
proof -
  obtain c w' where w: "w = c # w'"
    using assms(2) by (cases w) auto
  show ?thesis
    using assms(1) unfolding w by (simp add: occurs_at_Cons)
qed

lemma occurs_nth:
  assumes "occurs_at w s i" and "k < length w"
  shows "lower_char (s ! (i + k)) = lower_char (w ! k)"
proof -
  have p: "prefix (lower w) (drop i (lower s))"
    using assms(1) by (simp add: occurs_at_def)
  have l: "i + length w \<le> length s"
    using assms(1) by (rule occurs_at_length)
  have "lower w ! k = drop i (lower s) ! k"
    using p assms(2) by (auto simp: prefix_def lower_def nth_append)
  also have "\<dots> = lower s ! (i + k)"
    using l assms(2) by (simp add: length_lower)
  finally show ?thesis
    using l assms(2) by (simp add: lower_def)
qed

text \<open>
  For a word that begins and ends with a word character, the word boundaries that the
  pattern asks for are there exactly when the occurrence is bounded by non-word
  characters.
\<close>

lemma boundary_match_iff:
  assumes "w \<noteq> []" and "is_word (hd w)" and "is_word (last w)"
  shows "boundary_match w s = whole_word_match w s"
proof -
  have "(boundary s i \<and> boundary s (i + length w)) = bounded_by_non_word s i (i + length w)"
    if o: "occurs_at w s i" for i
  proof -
    have f: "i < length s" "is_word (s ! i)"
      using occurs_first [OF o assms(1)] lower_eq_word [of "s ! i" "hd w"] assms(2) by auto
    have k: "length w - 1 < length w"
      using assms(1) by simp
    have "lower_char (s ! (i + (length w - 1))) = lower_char (last w)"
      using occurs_nth [OF o k] assms(1) by (simp add: last_conv_nth)
    then have "is_word (s ! (i + (length w - 1)))"
      using lower_eq_word [of "s ! (i + (length w - 1))" "last w"] assms(3) by simp
    moreover have "i + (length w - 1) = i + length w - 1"
      using assms(1) by (cases w) simp_all
    ultimately have g: "0 < i + length w" "is_word (s ! (i + length w - 1))"
      using assms(1) by simp_all
    show ?thesis
      using f g by (auto simp: boundary_def bounded_by_non_word_def)
  qed
  then show ?thesis
    unfolding boundary_match_def whole_word_match_def by blast
qed

lemma strip_nonempty: "strip w \<noteq> [] \<Longrightarrow> w \<noteq> []"
  using strip_Nil by auto


section \<open>Contexts\<close>

text \<open>
  C1, as the claim states it, fails, in two ways. For the corpus \<open>The quick fox jumps.\<close>,
  the word \<open>fox\<close> and the radius 5, the result is not the context \<open>quick fox jump\<close>: the
  word is at offset 10, so the window starts at offset 5, after the \<open>q\<close>. And a sentence
  with a case-insensitive whole-word match need not give a context: in the one sentence of
  the corpus \<open>A fox, here\<close> the word \<open>fox,\<close> stands between two spaces, and the result is
  empty, because the pattern asks for a word boundary after the comma.
\<close>

theorem context_claim_counterexample:
  "find_matching_sentences_for_word 5 (Some ''The quick fox jumps.'') (PyStr ''fox'')
     \<noteq> Some [''quick fox jump'']
   \<and> split_sentences ''A fox, here'' = [''A fox, here'']
   \<and> whole_word_match ''fox,'' ''A fox, here''
   \<and> find_matching_sentences_for_word 5 (Some ''A fox, here'') (PyStr ''fox,'') = Some []"
proof -
  have a: "find_matching_sentences_for_word 5 (Some ''The quick fox jumps.'') (PyStr ''fox'')
     \<noteq> Some [''quick fox jump'']"
    by code_simp
  have b: "split_sentences ''A fox, here'' = [''A fox, here'']"
    by code_simp
  have "occurs_at ''fox,'' ''A fox, here'' 2"
    by (simp add: occurs_at_def lower_def lower_char_def)
  moreover have "bounded_by_non_word ''A fox, here'' 2 (2 + length ''fox,'')"
    by (simp add: bounded_by_non_word_def is_word_def is_upper_def is_lower_def is_digit_def)
  ultimately have c: "whole_word_match ''fox,'' ''A fox, here''"
    unfolding whole_word_match_def by blast
  have d: "find_matching_sentences_for_word 5 (Some ''A fox, here'') (PyStr ''fox,'') = Some []"
    by code_simp
  from a b c d show ?thesis by blast
qed

text \<open>
  C1, amended. Let the corpus and the word be ASCII text, and let the word pass validation,
  have no character that the pattern syntax gives a meaning, and begin and end with a word
  character. \<open>find_matching_sentences_for_word\<close> returns, for the sentences of the corpus
  that have a case-insensitive whole-word match of the word (an occurrence of the lowercase
  word in the lowercase sentence with no word character just before it and none just after
  it), in their order, the context of each: with \<open>idx\<close> the offset of the first occurrence
  of the lowercase word in the lowercase sentence, the sentence from \<open>max(0, idx - R)\<close> to
  \<open>min(len(sentence), idx + len(word) + R)\<close>, newlines replaced by spaces and whitespace
  trimmed at both ends. For the corpus \<open>The quick fox jumps.\<close>, the word \<open>fox\<close> and the
  radius 5, the result is the context \<open>uick fox jump\<close>.
\<close>

theorem context_window:
  "plain w \<Longrightarrow> strip w \<noteq> [] \<Longrightarrow> ascii_text w \<Longrightarrow> ascii_text corpus \<Longrightarrow>
   is_word (hd w) \<Longrightarrow> is_word (last w) \<Longrightarrow>
     find_matching_sentences_for_word R (Some corpus) (PyStr w)
       = Some (map (window R w) (filter (whole_word_match w) (split_sentences corpus)))
   \<and> find_matching_sentences_for_word 5 (Some ''The quick fox jumps.'') (PyStr ''fox'')
       = Some [''uick fox jump'']"
proof -
  assume v: "plain w" "strip w \<noteq> []" "ascii_text w" "ascii_text corpus"
    and e: "is_word (hd w)" "is_word (last w)"
  have m: "boundary_match w = whole_word_match w"
    using boundary_match_iff [OF strip_nonempty [OF v(2)] e] by (rule ext)
  have x: "find_matching_sentences_for_word 5 (Some ''The quick fox jumps.'') (PyStr ''fox'')
       = Some [''uick fox jump'']"
    by code_simp
  show ?thesis
    using find_plain [OF v, of R] x by (simp only: m)
qed

theorem context_window_witness:
  "plain ''fox'' \<and> strip ''fox'' \<noteq> []
   \<and> ascii_text ''fox'' \<and> ascii_text ''The quick fox jumps. Foxes run. A FOX!''
   \<and> is_word (hd ''fox'') \<and> is_word (last ''fox'')
   \<and> find_matching_sentences_for_word 5
        (Some ''The quick fox jumps. Foxes run. A FOX!'') (PyStr ''fox'')
      = Some [''uick fox jump'', ''A FOX!'']
   \<and> map (window 5 ''fox'')
        (filter (whole_word_match ''fox'')
          (split_sentences ''The quick fox jumps. Foxes run. A FOX!''))
      = [''uick fox jump'', ''A FOX!'']"
proof -
  have p: "plain ''fox''"
    by (simp add: plain_def metachars_def)
  have v: "strip ''fox'' \<noteq> []"
    by (simp add: strip_def is_space_def)
  have a: "ascii_text ''fox''" "ascii_text ''The quick fox jumps. Foxes run. A FOX!''"
    by (simp_all add: ascii_text_def ascii_char_def)
  have w: "is_word (hd ''fox'')" "is_word (last ''fox'')"
    by (simp_all add: is_word_def is_lower_def)
  have e: "find_matching_sentences_for_word 5
        (Some ''The quick fox jumps. Foxes run. A FOX!'') (PyStr ''fox'')
      = Some [''uick fox jump'', ''A FOX!'']"
    by code_simp
  show ?thesis
    using p v a w e context_window [OF p v a w, of 5]
    by simp
qed

end
